theory Spec2Isabelle
  imports Main "HOL-Library.AList"
begin

section \<open>JavaScript values and objects\<close>

text \<open>
  Field values are the JavaScript primitives. Numbers are only ever compared, so a
  finite number is an \<open>int\<close> and \<open>NaN\<close> is a value of its own (\<open>+0\<close> and \<open>-0\<close> are the same
  number for \<open>===\<close> and for \<open>Map\<close> keys alike). Arrays and nested objects are references
  compared by identity and are left out. HOL equality on \<open>jsvalue\<close> is the
  \<open>SameValueZero\<close> comparison of \<open>Map\<close> and \<open>Set\<close>; \<open>===\<close> differs from it on \<open>NaN\<close> only.
\<close>

datatype jsvalue = JUndefined | JNull | JBool bool | JNum int | JNaN | JStr string

fun truthy :: "jsvalue \<Rightarrow> bool" where
  "truthy JUndefined = False"
| "truthy JNull = False"
| "truthy (JBool b) = b"
| "truthy (JNum n) = (n \<noteq> 0)"
| "truthy JNaN = False"
| "truthy (JStr s) = (s \<noteq> [])"

definition strict_eq :: "jsvalue \<Rightarrow> jsvalue \<Rightarrow> bool" where
  "strict_eq a b = (a = b \<and> a \<noteq> JNaN)"

text \<open>
  An object is the list of its own properties in \<open>Object.entries\<close> order (property names
  that are array indices, which JavaScript lists first, are not told apart). A \<open>Map\<close> is the
  list of its entries and a \<open>Set\<close> the list of its members, both in insertion order:
  \<open>Map.get\<close> is \<^const>\<open>map_of\<close>, \<open>Map.set\<close> is \<^const>\<open>AList.update\<close> (an existing key keeps
  its place, a new key goes last), \<open>Map.delete\<close> is \<^const>\<open>AList.delete\<close>.
\<close>

type_synonym obj = "(string \<times> jsvalue) list"

definition obj_get :: "obj \<Rightarrow> string \<Rightarrow> jsvalue" where
  "obj_get ob key = (case map_of ob key of None \<Rightarrow> JUndefined | Some v \<Rightarrow> v)"

definition spread :: "obj \<Rightarrow> obj \<Rightarrow> obj" where
  "spread a b = fold (\<lambda>(k, v). AList.update k v) b a"

definition Set_add :: "'a \<Rightarrow> 'a list \<Rightarrow> 'a list" where
  "Set_add x xs = (if x \<in> set xs then xs else xs @ [x])"

definition Set_delete :: "'a \<Rightarrow> 'a list \<Rightarrow> 'a list" where
  "Set_delete x xs = removeAll x xs"

definition slice :: "'a list \<Rightarrow> nat \<Rightarrow> nat \<Rightarrow> 'a list" where
  "slice xs a b = drop a (take b xs)"

section \<open>The secondary index\<close>

type_synonym idset = "jsvalue list"
type_synonym valueMap = "(jsvalue \<times> idset) list"
type_synonym index = "(string \<times> valueMap) list"

text \<open>\<open>this.indexes.get(key)?.get(value)\<close>\<close>

definition idx_lookup :: "index \<Rightarrow> string \<Rightarrow> jsvalue \<Rightarrow> idset option" where
  "idx_lookup idx key val =
     (case map_of idx key of None \<Rightarrow> None | Some valueMap \<Rightarrow> map_of valueMap val)"

definition idx_ids :: "index \<Rightarrow> string \<Rightarrow> jsvalue \<Rightarrow> jsvalue set" where
  "idx_ids idx key val = (case idx_lookup idx key val of None \<Rightarrow> {} | Some ids \<Rightarrow> set ids)"

text \<open>
  One round of the indexing \<open>for\<close> of \<open>create\<close>, \<open>update\<close> and \<open>buildIndexChunk\<close>:
  create the value map of the key if there is none, create the id set of the value if
  there is none, add the id. The nested \<open>Map\<close> and \<open>Set\<close> are changed in place, which keeps
  every entry where it is.
\<close>

definition index_add :: "jsvalue \<Rightarrow> string \<times> jsvalue \<Rightarrow> index \<Rightarrow> index" where
  "index_add rid kv idx = (case kv of (key, val) \<Rightarrow>
     (let idx1 = (if map_of idx key = None then AList.update key [] idx else idx);
          valueMap = (case map_of idx1 key of None \<Rightarrow> [] | Some m \<Rightarrow> m);
          valueMap1 = (if map_of valueMap val = None then AList.update val [] valueMap
                       else valueMap);
          ids = (case map_of valueMap1 val of None \<Rightarrow> [] | Some s \<Rightarrow> s)
      in AList.update key (AList.update val (Set_add rid ids) valueMap1) idx1))"

text \<open>One round of the \<open>for\<close> of \<open>update\<close> and \<open>delete\<close> that removes the old index entries.\<close>

definition index_remove :: "jsvalue \<Rightarrow> string \<times> jsvalue \<Rightarrow> index \<Rightarrow> index" where
  "index_remove rid kv idx = (case kv of (key, val) \<Rightarrow>
     (case map_of idx key of
        None \<Rightarrow> idx
      | Some indexMap \<Rightarrow>
          (case map_of indexMap val of
             None \<Rightarrow> idx
           | Some ids \<Rightarrow> AList.update key (AList.update val (Set_delete rid ids) indexMap) idx)))"

text \<open>The worker's \<open>buildIndexChunk\<close>: one pass over the entries of a chunk.\<close>

definition buildIndexChunk :: "(jsvalue \<times> obj) list \<Rightarrow> index" where
  "buildIndexChunk dat = fold (\<lambda>(rid, ob). fold (index_add rid) ob) dat []"

text \<open>The merge of \<open>buildIndexes\<close>, from the innermost \<open>for\<close> outwards.\<close>

definition merge_ids :: "string \<Rightarrow> jsvalue \<Rightarrow> idset \<Rightarrow> index \<Rightarrow> index" where
  "merge_ids key val ids idx =
     (let valueMap = (case map_of idx key of None \<Rightarrow> [] | Some m \<Rightarrow> m);
          valueMap1 = (if map_of valueMap val = None then AList.update val [] valueMap
                       else valueMap);
          old = (case map_of valueMap1 val of None \<Rightarrow> [] | Some s \<Rightarrow> s)
      in AList.update key (AList.update val (fold Set_add ids old) valueMap1) idx)"

definition merge_key :: "string \<Rightarrow> valueMap \<Rightarrow> index \<Rightarrow> index" where
  "merge_key key valueMap idx =
     (let idx1 = (if map_of idx key = None then AList.update key [] idx else idx)
      in fold (\<lambda>(val, ids). merge_ids key val ids) valueMap idx1)"

definition merge_worker :: "index \<Rightarrow> index \<Rightarrow> index" where
  "merge_worker workerIndexes idx = fold (\<lambda>(key, valueMap). merge_key key valueMap) workerIndexes idx"

section \<open>The database object and its environment\<close>

text \<open>
  An error is a Node system error with its \<open>code\<close>, or another exception. Whatever the
  environment answers during one call is an \<open>env\<close>: the number of CPUs, the outcome of
  the file operations, the codec of \<open>@msgpack/msgpack\<close>, the clock, the next uuid,
  \<open>JSON.stringify\<close> and the string conversion of a template literal. The error of
  \<open>fs.unlink\<close> is swallowed by the code, so it has no field. The file operations a
  call performs are returned as a list of \<open>fs_call\<close>.
\<close>

datatype error = SystemError string | Exception string

fun err_code :: "error \<Rightarrow> string option" where
  "err_code (SystemError c) = Some c"
| "err_code (Exception m) = None"

type_synonym bytes = "nat list"

datatype fs_call = ReadFile string | WriteFile string bytes | Rename string string | Unlink string

record env =
  os_cpus :: nat
  fs_readFile :: "error + bytes"
  msgpack_decode :: "bytes \<Rightarrow> string + obj list"
  msgpack_encode :: "obj list \<Rightarrow> error + bytes"
  fs_writeFile :: "error option"
  fs_rename :: "error option"
  Date_now :: nat
  uuidv4 :: string
  JSON_stringify :: "obj \<Rightarrow> string"
  String_of :: "jsvalue \<Rightarrow> string"

text \<open>
  The fields of \<open>Database\<close>. The worker pool is its size. The cache of package
  \<open>lru-cache\<close> is the list of its live entries: expiry and eviction belong to the
  package and only drop entries. Calls run one after the other, so \<open>savePromise\<close> is
  \<open>null\<close> whenever one starts and is not a field; \<open>pendingWrites\<close> is never used.
\<close>

record db =
  schema :: string
  data :: "(jsvalue \<times> obj) list"
  indexes :: index
  cache :: "(string \<times> obj list) list"
  batchSize :: nat
  saveInterval :: nat
  lastSave :: nat
  isInitialized :: bool
  workerPool :: nat
  dirty :: bool

type_synonym 'a outcome = "(error + 'a) \<times> db \<times> fs_call list"

record options =
  opt_cacheSize :: "nat option"
  opt_cacheTTL :: "nat option"
  opt_batchSize :: "nat option"
  opt_saveInterval :: "nat option"

text \<open>\<open>options.x || d\<close>\<close>

definition or_default :: "nat option \<Rightarrow> nat \<Rightarrow> nat" where
  "or_default x d = (case x of None \<Rightarrow> d | Some n \<Rightarrow> if n = 0 then d else n)"

definition new_Database :: "string \<Rightarrow> options \<Rightarrow> nat \<Rightarrow> db" where
  "new_Database sch opts now =
     \<lparr>schema = sch, data = [], indexes = [], cache = [],
      batchSize = or_default (opt_batchSize opts) 5000,
      saveInterval = or_default (opt_saveInterval opts) 5000,
      lastSave = now, isInitialized = False, workerPool = 0, dirty = False\<rparr>"

subsection \<open>Start-up: workers, load, bulk index build\<close>

definition initWorkers :: "db \<Rightarrow> env \<Rightarrow> db" where
  "initWorkers s e = s\<lparr>workerPool := workerPool s + max 1 (os_cpus e div 2)\<rparr>"

text \<open>
  \<open>buildIndexes\<close>: the chunk size is \<open>Math.ceil(length / workers)\<close>; with no worker there
  is no chunk and the chunk size is not used.
\<close>

definition chunks_of :: "'a list \<Rightarrow> nat \<Rightarrow> 'a list list" where
  "chunks_of dataArray n =
     (let chunkSize = (length dataArray + n - 1) div n
      in map (\<lambda>i. slice dataArray (i * chunkSize) ((i + 1) * chunkSize)) [0..<n])"

definition buildIndexes :: "db \<Rightarrow> db" where
  "buildIndexes s =
     (let results = map buildIndexChunk (chunks_of (data s) (workerPool s))
      in s\<lparr>indexes := fold merge_worker results []\<rparr>)"

definition load_catch :: "db \<Rightarrow> error \<Rightarrow> fs_call list \<Rightarrow> unit outcome" where
  "load_catch s err calls =
     (if err_code err = Some ''ENOENT'' then (Inr (), s\<lparr>data := []\<rparr>, calls)
      else (Inl err, s, calls))"

definition load :: "db \<Rightarrow> env \<Rightarrow> unit outcome" where
  "load s e =
     (let calls = [ReadFile (schema s)] in
      case fs_readFile e of
        Inl err \<Rightarrow> load_catch s err calls
      | Inr content \<Rightarrow>
          (case msgpack_decode e content of
             Inl msg \<Rightarrow> load_catch s (Exception msg) calls
           | Inr decodedData \<Rightarrow>
               (Inr (),
                buildIndexes
                  (s\<lparr>data := fold (\<lambda>item. AList.update (obj_get item ''id'') item) decodedData []\<rparr>),
                calls)))"

text \<open>\<open>init\<close>; the timer that \<open>startAutoSave\<close> registers calls \<open>save\<close> later and is not part of it.\<close>

definition init :: "db \<Rightarrow> env \<Rightarrow> unit outcome" where
  "init s e =
     (if isInitialized s then (Inr (), s, [])
      else (case load (initWorkers s e) e of
              (Inl err, s1, calls) \<Rightarrow> (Inl err, s1, calls)
            | (Inr u, s1, calls) \<Rightarrow> (Inr (), s1\<lparr>isInitialized := True\<rparr>, calls)))"

text \<open>
  Every public operation awaits \<open>init\<close> first and goes on only if it did not throw.
  What follows the \<open>await\<close> is given as a function of the state \<open>init\<close> leaves.
\<close>

definition after_init :: "db \<Rightarrow> env \<Rightarrow> (db \<Rightarrow> 'a outcome) \<Rightarrow> 'a outcome" where
  "after_init s e body =
     (case init s e of
        (Inl err, s1, calls1) \<Rightarrow> (Inl err, s1, calls1)
      | (Inr u, s1, calls1) \<Rightarrow> (case body s1 of (r, s2, calls2) \<Rightarrow> (r, s2, calls1 @ calls2)))"

subsection \<open>Save\<close>

definition save :: "db \<Rightarrow> env \<Rightarrow> unit outcome" where
  "save s e =
     (let tmpPath = schema s @ ''.tmp'';
          dataArray = map snd (data s)
      in case msgpack_encode e dataArray of
           Inl err \<Rightarrow> (Inl err, s, [Unlink tmpPath])
         | Inr packedData \<Rightarrow>
             (case fs_writeFile e of
                Some err \<Rightarrow> (Inl err, s, [WriteFile tmpPath packedData, Unlink tmpPath])
              | None \<Rightarrow>
                  (case fs_rename e of
                     Some err \<Rightarrow>
                       (Inl err, s,
                        [WriteFile tmpPath packedData, Rename tmpPath (schema s), Unlink tmpPath])
                   | None \<Rightarrow>
                       (Inr (), s\<lparr>dirty := False, lastSave := Date_now e\<rparr>,
                        [WriteFile tmpPath packedData, Rename tmpPath (schema s)]))))"

subsection \<open>Create, update, delete\<close>

text \<open>The synchronous part of \<open>create\<close>, from \<open>obj.id || uuidv4()\<close> to the end of the index loop.\<close>

definition create_store :: "db \<Rightarrow> env \<Rightarrow> obj \<Rightarrow> obj \<times> db" where
  "create_store s e ob =
     (let rid = (if truthy (obj_get ob ''id'') then obj_get ob ''id'' else JStr (uuidv4 e));
          ob1 = AList.update ''id'' rid ob;
          s1 = s\<lparr>data := AList.update rid ob1 (data s), dirty := True\<rparr>
      in (ob1, s1\<lparr>indexes := fold (index_add rid) ob1 (indexes s1)\<rparr>))"

text \<open>
  \<open>this.data.size % this.batchSize === 0\<close>; \<open>n % 0\<close> is \<open>NaN\<close> in JavaScript, so a batch
  size of 0 never saves.
\<close>

definition batch_full :: "db \<Rightarrow> bool" where
  "batch_full s = (batchSize s \<noteq> 0 \<and> length (data s) mod batchSize s = 0)"

text \<open>The rest of \<open>create\<close>: the save that a full batch starts, and the result.\<close>

definition create_body :: "db \<Rightarrow> env \<Rightarrow> obj \<Rightarrow> obj outcome" where
  "create_body s e ob =
     (case create_store s e ob of
        (ob1, s2) \<Rightarrow>
          if batch_full s2 then
            (case save s2 e of
               (Inl err, s3, calls) \<Rightarrow> (Inl err, s3, calls)
             | (Inr u, s3, calls) \<Rightarrow> (Inr ob1, s3, calls))
          else (Inr ob1, s2, []))"

definition create :: "db \<Rightarrow> env \<Rightarrow> obj \<Rightarrow> obj outcome" where
  "create s e ob = after_init s e (\<lambda>s1. create_body s1 e ob)"

text \<open>\<open>update\<close> after \<open>init\<close>; the result \<open>None\<close> is the \<open>null\<close> it returns for an unknown id.\<close>

definition update_body :: "db \<Rightarrow> jsvalue \<Rightarrow> obj \<Rightarrow> obj option outcome" where
  "update_body s rid updates =
     (case map_of (data s) rid of
        None \<Rightarrow> (Inr None, s, [])
      | Some existingObj \<Rightarrow>
          (let idx1 = fold (index_remove rid) existingObj (indexes s);
               updatedObj = spread existingObj updates;
               s1 = s\<lparr>data := AList.update rid updatedObj (data s), dirty := True\<rparr>
           in (Inr (Some updatedObj),
               s1\<lparr>indexes := fold (index_add rid) updatedObj idx1\<rparr>, [])))"

definition update :: "db \<Rightarrow> env \<Rightarrow> jsvalue \<Rightarrow> obj \<Rightarrow> obj option outcome" where
  "update s e rid updates = after_init s e (\<lambda>s1. update_body s1 rid updates)"

text \<open>\<open>delete\<close> after \<open>init\<close>.\<close>

definition delete_body :: "db \<Rightarrow> jsvalue \<Rightarrow> bool outcome" where
  "delete_body s rid =
     (case map_of (data s) rid of
        None \<Rightarrow> (Inr False, s, [])
      | Some ob \<Rightarrow>
          (Inr True,
           s\<lparr>indexes := fold (index_remove rid) ob (indexes s),
              data := AList.delete rid (data s), dirty := True\<rparr>, []))"

definition delete :: "db \<Rightarrow> env \<Rightarrow> jsvalue \<Rightarrow> bool outcome" where
  "delete s e rid = after_init s e (\<lambda>s1. delete_body s1 rid)"

subsection \<open>Query by predicate map\<close>

text \<open>One round of the loop that looks for the smallest matching id set.\<close>

definition smallest_step ::
  "index \<Rightarrow> obj \<Rightarrow> string \<Rightarrow> (idset \<times> string) option \<Rightarrow> (idset \<times> string) option" where
  "smallest_step idx query key smallest =
     (case idx_lookup idx key (obj_get query key) of
        None \<Rightarrow> smallest
      | Some matchingIds \<Rightarrow>
          (case smallest of
             None \<Rightarrow> Some (matchingIds, key)
           | Some (smallestSet, smallestKey) \<Rightarrow>
               if length matchingIds < length smallestSet then Some (matchingIds, key)
               else smallest))"

text \<open>\<open>keys.every((key) => obj[key] === query[key])\<close>\<close>

definition matches :: "obj \<Rightarrow> string list \<Rightarrow> obj \<Rightarrow> bool" where
  "matches query keys ob = list_all (\<lambda>key. strict_eq (obj_get ob key) (obj_get query key)) keys"

text \<open>
  \<open>Array.from(smallestSet).map((id) => this.data.get(id)).filter(...)\<close>: the records of
  the candidate ids that exist and pass the full conjunction.
\<close>

definition filter_candidates :: "db \<Rightarrow> obj \<Rightarrow> idset \<Rightarrow> obj list" where
  "filter_candidates s query ids =
     List.map_filter
       (\<lambda>rid. case map_of (data s) rid of
               None \<Rightarrow> None
             | Some ob \<Rightarrow> if matches query (map fst query) ob then Some ob else None)
       ids"

text \<open>
  The part of \<open>findByQuery\<close> after the cache lookup, up to the result; \<open>None\<close> is one of
  the two early returns.
\<close>

definition query_by_index :: "db \<Rightarrow> obj \<Rightarrow> obj list option" where
  "query_by_index s query =
     (let keys = map fst query in
      if length keys = 0 then None
      else (case fold (smallest_step (indexes s) query) keys None of
              None \<Rightarrow> None
            | Some (smallestSet, smallestKey) \<Rightarrow> Some (filter_candidates s query smallestSet)))"

text \<open>What \<open>findByQuery\<close> returns when the cache has no entry for the query.\<close>

definition query_result :: "db \<Rightarrow> obj \<Rightarrow> obj list" where
  "query_result s query = (case query_by_index s query of None \<Rightarrow> [] | Some results \<Rightarrow> results)"

text \<open>
  \<open>findByQuery\<close> after \<open>init\<close>: a cached result is returned as it is; the two early
  returns give \<open>[]\<close> and leave the cache alone; a computed result is cached.
\<close>

definition findByQuery_body :: "db \<Rightarrow> env \<Rightarrow> obj \<Rightarrow> obj list outcome" where
  "findByQuery_body s e query =
     (let cacheKey = ''query:'' @ JSON_stringify e query in
      case map_of (cache s) cacheKey of
        Some cached \<Rightarrow> (Inr cached, s, [])
      | None \<Rightarrow>
          (case query_by_index s query of
             None \<Rightarrow> (Inr [], s, [])
           | Some results \<Rightarrow>
               (Inr results, s\<lparr>cache := AList.update cacheKey results (cache s)\<rparr>, [])))"

definition findByQuery :: "db \<Rightarrow> env \<Rightarrow> obj \<Rightarrow> obj list outcome" where
  "findByQuery s e query = after_init s e (\<lambda>s1. findByQuery_body s1 e query)"

text \<open>
  The filter the query is compared with: every stored record, in \<open>read()\<close> order, kept
  when each predicate field is strictly equal.
\<close>

definition naive_query :: "db \<Rightarrow> obj \<Rightarrow> obj list" where
  "naive_query s query = filter (matches query (map fst query)) (map snd (data s))"

subsection \<open>Query by one field\<close>

text \<open>
  \<open>findByKey\<close> after \<open>init\<close>: the ids of the index entry, each replaced by its record,
  those without a record dropped. The records are not compared with the value again.
\<close>

definition findByKey_body :: "db \<Rightarrow> env \<Rightarrow> string \<Rightarrow> jsvalue \<Rightarrow> obj list outcome" where
  "findByKey_body s e key val =
     (let cacheKey = key @ '':'' @ String_of e val in
      case map_of (cache s) cacheKey of
        Some cached \<Rightarrow> (Inr cached, s, [])
      | None \<Rightarrow>
          (case idx_lookup (indexes s) key val of
             None \<Rightarrow> (Inr [], s, [])
           | Some ids \<Rightarrow>
               (let results = List.map_filter (map_of (data s)) ids
                in (Inr results, s\<lparr>cache := AList.update cacheKey results (cache s)\<rparr>, []))))"

definition findByKey :: "db \<Rightarrow> env \<Rightarrow> string \<Rightarrow> jsvalue \<Rightarrow> obj list outcome" where
  "findByKey s e key val = after_init s e (\<lambda>s1. findByKey_body s1 e key val)"

subsection \<open>Read\<close>

text \<open>\<open>read\<close>: after \<open>init\<close>, the stored records in the order of the record map.\<close>

definition read :: "db \<Rightarrow> env \<Rightarrow> obj list outcome" where
  "read s e = after_init s e (\<lambda>s1. (Inr (map snd (data s1)), s1, []))"

section \<open>Properties of a state\<close>

definition result_of :: "'a outcome \<Rightarrow> error + 'a" where
  "result_of out = fst out"

definition state_of :: "'a outcome \<Rightarrow> db" where
  "state_of out = fst (snd out)"

definition calls_of :: "'a outcome \<Rightarrow> fs_call list" where
  "calls_of out = snd (snd out)"

text \<open>
  The two halves of index consistency. Complete: the id of a stored record is in the id
  set of each of its field/value pairs. Sound: an id set holds only ids of stored
  records that have that value at that field. The id of a record is the key it is
  stored under.
\<close>

definition index_complete :: "db \<Rightarrow> bool" where
  "index_complete s =
     (\<forall>rid ob k v. map_of (data s) rid = Some ob \<longrightarrow> map_of ob k = Some v
        \<longrightarrow> rid \<in> idx_ids (indexes s) k v)"

definition index_sound :: "db \<Rightarrow> bool" where
  "index_sound s =
     (\<forall>k v rid. rid \<in> idx_ids (indexes s) k v
        \<longrightarrow> (\<exists>ob. map_of (data s) rid = Some ob \<and> map_of ob k = Some v))"

definition index_consistent :: "db \<Rightarrow> bool" where
  "index_consistent s = (index_complete s \<and> index_sound s)"

text \<open>What a \<open>Map\<close> of objects always satisfies: no key twice, no property twice.\<close>

definition wf_obj :: "obj \<Rightarrow> bool" where
  "wf_obj ob = distinct (map fst ob)"

definition wf_db :: "db \<Rightarrow> bool" where
  "wf_db s = (distinct (map fst (data s)) \<and> (\<forall>(rid, ob) \<in> set (data s). wf_obj ob))"

text \<open>An index seen as a map from fields to maps from values to sets of ids.\<close>

definition index_abs :: "index \<Rightarrow> string \<Rightarrow> (jsvalue \<Rightarrow> jsvalue set option) option" where
  "index_abs idx key =
     map_option (\<lambda>valueMap val. map_option set (map_of valueMap val)) (map_of idx key)"

definition wf_index :: "index \<Rightarrow> bool" where
  "wf_index idx = (distinct (map fst idx) \<and> (\<forall>(k, valueMap) \<in> set idx. distinct (map fst valueMap)))"

text \<open>
  The index as the specification words it. The (field, value, id) triples of a sequence
  of entries are listed record by record. The index that holds exactly these triples
  has a field when a triple has it, has a value under a field when a triple has both,
  and has under a field and a value the ids of the triples with both, and no others.
\<close>

definition triples :: "(jsvalue \<times> obj) list \<Rightarrow> (string \<times> jsvalue \<times> jsvalue) list" where
  "triples dat = concat (map (\<lambda>(rid, ob). map (\<lambda>(key, val). (key, val, rid)) ob) dat)"

definition index_of_triples ::
  "(string \<times> jsvalue \<times> jsvalue) list \<Rightarrow> string \<Rightarrow> (jsvalue \<Rightarrow> jsvalue set option) option" where
  "index_of_triples ts key =
     (if list_ex (\<lambda>(k, v, rid). k = key) ts
      then Some (\<lambda>val. if list_ex (\<lambda>(k, v, rid). k = key \<and> v = val) ts
                       then Some (set (map (\<lambda>(k, v, rid). rid)
                                         (filter (\<lambda>(k, v, rid). k = key \<and> v = val) ts)))
                       else None)
      else None)"

text \<open>The stored records that a predicate map selects.\<close>

definition selected :: "db \<Rightarrow> obj \<Rightarrow> obj set" where
  "selected s query =
     {ob. (\<exists>rid. map_of (data s) rid = Some ob) \<and>
          (\<forall>key \<in> set (map fst query). strict_eq (obj_get ob key) (obj_get query key))}"

definition defined_query :: "obj \<Rightarrow> bool" where
  "defined_query query = (\<forall>key \<in> set (map fst query). obj_get query key \<noteq> JUndefined)"

text \<open>When the save that a call to \<open>save\<close> starts goes through.\<close>

definition save_succeeds :: "db \<Rightarrow> env \<Rightarrow> bool" where
  "save_succeeds s e =
     ((\<exists>packed. msgpack_encode e (map snd (data s)) = Inr packed)
      \<and> fs_writeFile e = None \<and> fs_rename e = None)"

text \<open>The state as the operations keep it: a record map with each key once, and a complete index.\<close>

definition store_inv :: "db \<Rightarrow> bool" where
  "store_inv s = (distinct (map fst (data s)) \<and> index_complete s)"

text \<open>The states that the public operations reach from a new database.\<close>

inductive reachable :: "db \<Rightarrow> bool" where
  reach_new: "reachable (new_Database sch opts now)"
| reach_init: "reachable s \<Longrightarrow> reachable (state_of (init s e))"
| reach_save: "reachable s \<Longrightarrow> reachable (state_of (save s e))"
| reach_create: "reachable s \<Longrightarrow> reachable (state_of (create s e ob))"
| reach_update: "reachable s \<Longrightarrow> reachable (state_of (update s e rid updates))"
| reach_delete: "reachable s \<Longrightarrow> reachable (state_of (delete s e rid))"
| reach_findByQuery: "reachable s \<Longrightarrow> reachable (state_of (findByQuery s e query))"
| reach_findByKey: "reachable s \<Longrightarrow> reachable (state_of (findByKey s e key val))"

section \<open>Sample values\<close>

text \<open>
  An environment with four CPUs and no snapshot file, in which writing and renaming
  succeed; its \<open>JSON_stringify\<close> lists the keys of the query and its \<open>String_of\<close> gives a
  string as it is: they stand for any functions. \<open>empty_db\<close> is the new database \<open>db\<close>
  with batch size 2 after \<open>init\<close> in it; \<open>sample_db\<close> is that store after \<open>create\<close> of
  one record, a save, and a query for the age of the record.
\<close>

definition sample_env :: env where
  "sample_env =
     \<lparr>os_cpus = 4, fs_readFile = Inl (SystemError ''ENOENT''),
      msgpack_decode = (\<lambda>b. Inl ''truncated''), msgpack_encode = (\<lambda>d. Inr [length d]),
      fs_writeFile = None, fs_rename = None, Date_now = 7, uuidv4 = ''u-1'',
      JSON_stringify = (\<lambda>q. concat (map fst q)),
      String_of = (\<lambda>v. case v of JStr str \<Rightarrow> str | _ \<Rightarrow> [])\<rparr>"

definition sample_options :: options where
  "sample_options =
     \<lparr>opt_cacheSize = None, opt_cacheTTL = None, opt_batchSize = Some 2,
      opt_saveInterval = None\<rparr>"

definition empty_db :: db where
  "empty_db =
     \<lparr>schema = ''db'', data = [], indexes = [], cache = [], batchSize = 2,
      saveInterval = 5000, lastSave = 0, isInitialized = True, workerPool = 2,
      dirty = False\<rparr>"

definition sample_db :: db where
  "sample_db =
     \<lparr>schema = ''db'',
      data = [(JStr ''a'', [(''id'', JStr ''a''), (''name'', JStr ''X''), (''age'', JNum 30)])],
      indexes = [(''id'', [(JStr ''a'', [JStr ''a''])]), (''name'', [(JStr ''X'', [JStr ''a''])]),
                 (''age'', [(JNum 30, [JStr ''a''])])],
      cache = [(''query:age'', [[(''id'', JStr ''a''), (''name'', JStr ''X''), (''age'', JNum 30)]])],
      batchSize = 2, saveInterval = 5000, lastSave = 7, isInitialized = True, workerPool = 2,
      dirty = False\<rparr>"

definition three_records :: "(jsvalue \<times> obj) list" where
  "three_records =
     [(JStr ''a'', [(''id'', JStr ''a''), (''age'', JNum 25)]),
      (JStr ''b'', [(''id'', JStr ''b''), (''age'', JNum 25)]),
      (JStr ''c'', [(''id'', JStr ''c''), (''age'', JNum 31)])]"

text \<open>
  A run on the empty store: a first record, a query for its age, a second record of
  the same age. And a run that creates two records under the same id.
\<close>

definition query_age :: obj where
  "query_age = [(''age'', JNum 25)]"

definition after_first_create :: db where
  "after_first_create =
     state_of (create empty_db sample_env [(''name'', JStr ''A''), (''age'', JNum 25)])"

definition after_query :: db where
  "after_query = state_of (findByQuery after_first_create sample_env query_age)"

definition after_second_create :: db where
  "after_second_create =
     state_of (create after_query (sample_env\<lparr>uuidv4 := ''u-2''\<rparr>)
        [(''name'', JStr ''B''), (''age'', JNum 25)])"

definition created_once :: db where
  "created_once =
     state_of (create empty_db sample_env [(''id'', JStr ''a''), (''name'', JStr ''X'')])"

definition created_twice :: db where
  "created_twice =
     state_of (create created_once sample_env [(''id'', JStr ''a''), (''name'', JStr ''Y'')])"

section \<open>Sets, objects and the index\<close>

lemma set_Set_add: "set (Set_add x xs) = insert x (set xs)"
  by (auto simp: Set_add_def)

lemma distinct_Set_add: "distinct xs \<Longrightarrow> distinct (Set_add x xs)"
  by (simp add: Set_add_def)

lemma set_Set_delete: "set (Set_delete x xs) = set xs - {x}"
  by (auto simp: Set_delete_def)

lemma set_fold_Set_add: "set (fold Set_add ids old) = set ids \<union> set old"
  by (induction ids arbitrary: old) (auto simp: set_Set_add)

lemma idx_lookup_index_add:
  "idx_lookup (index_add rid (k, v) idx) k' v' =
     (if k' = k \<and> v' = v
      then Some (Set_add rid (case idx_lookup idx k v of None \<Rightarrow> [] | Some s \<Rightarrow> s))
      else idx_lookup idx k' v')"
  by (auto simp: idx_lookup_def index_add_def Let_def AList.update_conv' split: option.splits)

lemma idx_ids_index_add:
  "idx_ids (index_add rid (k, v) idx) k' v' =
     (if k' = k \<and> v' = v then insert rid (idx_ids idx k v) else idx_ids idx k' v')"
  by (auto simp: idx_ids_def idx_lookup_index_add set_Set_add split: option.splits)

lemma has_key_index_add:
  "(map_of (index_add rid (k, v) idx) k' = None) = (k' \<noteq> k \<and> map_of idx k' = None)"
  by (auto simp: index_add_def Let_def AList.update_conv' split: option.splits)

lemma idx_lookup_index_remove:
  "idx_lookup (index_remove rid (k, v) idx) k' v' =
     (if k' = k \<and> v' = v then map_option (Set_delete rid) (idx_lookup idx k v)
      else idx_lookup idx k' v')"
  by (auto simp: idx_lookup_def index_remove_def AList.update_conv' split: option.splits)

lemma idx_ids_index_remove:
  "idx_ids (index_remove rid (k, v) idx) k' v' =
     (if k' = k \<and> v' = v then idx_ids idx k v - {rid} else idx_ids idx k' v')"
  by (auto simp: idx_ids_def idx_lookup_index_remove set_Set_delete split: option.splits)

lemma idx_ids_fold_add:
  "idx_ids (fold (index_add rid) ob idx) k v =
     idx_ids idx k v \<union> (if (k, v) \<in> set ob then {rid} else {})"
proof (induction ob arbitrary: idx)
  case Nil
  show ?case by simp
next
  case (Cons p ob)
  obtain k0 v0 where p: "p = (k0, v0)" by (cases p)
  show ?case
    by (auto simp: Cons.IH p idx_ids_index_add)
qed

lemma idx_ids_fold_remove:
  "idx_ids (fold (index_remove rid) ob idx) k v =
     idx_ids idx k v - (if (k, v) \<in> set ob then {rid} else {})"
proof (induction ob arbitrary: idx)
  case Nil
  show ?case by simp
next
  case (Cons p ob)
  obtain k0 v0 where p: "p = (k0, v0)" by (cases p)
  show ?case
    by (auto simp: Cons.IH p idx_ids_index_remove)
qed

lemma map_of_spread:
  "map_of (spread a b) k = (case map_of (rev b) k of Some v \<Rightarrow> Some v | None \<Rightarrow> map_of a k)"
  unfolding spread_def
proof (induction b arbitrary: a)
  case Nil
  show ?case by simp
next
  case (Cons p b)
  obtain k0 v0 where p: "p = (k0, v0)" by (cases p)
  show ?case
    by (simp add: Cons.IH p AList.update_conv' map_add_def split: option.splits)
qed

lemma keys_spread: "fst ` set (spread a b) = fst ` set a \<union> fst ` set b"
  unfolding spread_def
proof (induction b arbitrary: a)
  case Nil
  show ?case by simp
next
  case (Cons p b)
  obtain k0 v0 where p: "p = (k0, v0)" by (cases p)
  show ?case
    by (auto simp: Cons.IH p AList.dom_update)
qed

lemma map_of_rev_distinct: "distinct (map fst b) \<Longrightarrow> map_of (rev b) = map_of b"
  by (rule map_of_inject_set [THEN iffD2]) (simp_all add: rev_map [symmetric])

lemma truthy_iff: "truthy v \<longleftrightarrow> v \<notin> {JUndefined, JNull, JBool False, JNum 0, JNaN, JStr []}"
  by (cases v) auto

lemma obj_get_update_same: "obj_get (AList.update k v ob) k = v"
  by (simp add: obj_get_def AList.update_conv')

section \<open>Running after \<open>init\<close>\<close>

lemma init_initialized: "isInitialized s \<Longrightarrow> init s e = (Inr (), s, [])"
  by (simp add: init_def)

lemma after_init_initialized: "isInitialized s \<Longrightarrow> after_init s e body = body s"
  by (simp add: after_init_def init_initialized split: prod.splits)

lemma after_init_success:
  assumes "result_of (init s e) = Inr ()"
  shows "result_of (after_init s e body) = result_of (body (state_of (init s e)))"
    and "state_of (after_init s e body) = state_of (body (state_of (init s e)))"
    and "calls_of (after_init s e body)
           = calls_of (init s e) @ calls_of (body (state_of (init s e)))"
proof -
  obtain r s1 c1 where i: "init s e = (r, s1, c1)" by (cases "init s e")
  with assms have r: "r = Inr ()" by (simp add: result_of_def)
  obtain r2 s2 c2 where b: "body s1 = (r2, s2, c2)" by (cases "body s1")
  from i r b show "result_of (after_init s e body) = result_of (body (state_of (init s e)))"
    and "state_of (after_init s e body) = state_of (body (state_of (init s e)))"
    and "calls_of (after_init s e body)
           = calls_of (init s e) @ calls_of (body (state_of (init s e)))"
    by (simp_all add: after_init_def result_of_def state_of_def calls_of_def)
qed

lemma after_init_failure:
  assumes "result_of (init s e) = Inl err"
  shows "after_init s e body = (Inl err, state_of (init s e), calls_of (init s e))"
proof -
  obtain r s1 c1 where i: "init s e = (r, s1, c1)" by (cases "init s e")
  with assms have "r = Inl err" by (simp add: result_of_def)
  with i show ?thesis by (simp add: after_init_def state_of_def calls_of_def)
qed

text \<open>A property of the state that \<open>init\<close> and what follows it keep is kept by the whole call.\<close>

lemma after_init_preserves:
  assumes "P (state_of (init s e))" and "\<And>s1. P s1 \<Longrightarrow> P (state_of (body s1))"
  shows "P (state_of (after_init s e body))"
proof -
  obtain r s1 c where i: "init s e = (r, s1, c)" by (cases "init s e")
  have p1: "P s1" using assms(1) i by (simp add: state_of_def)
  show ?thesis
  proof (cases r)
    case (Inl err)
    with i p1 show ?thesis by (simp add: after_init_def state_of_def)
  next
    case (Inr u)
    obtain r2 s2 c2 where b: "body s1 = (r2, s2, c2)" by (cases "body s1")
    have "P s2" using assms(2) [OF p1] b by (simp add: state_of_def)
    with i Inr b show ?thesis by (simp add: after_init_def state_of_def)
  qed
qed

lemma save_result_cases:
  "(save_succeeds s e \<longrightarrow> save s e = (Inr (), s\<lparr>dirty := False, lastSave := Date_now e\<rparr>,
        [WriteFile (schema s @ ''.tmp'') (projr (msgpack_encode e (map snd (data s)))),
         Rename (schema s @ ''.tmp'') (schema s)]))
   \<and> (\<not> save_succeeds s e \<longrightarrow> (\<exists>err. result_of (save s e) = Inl err) \<and> state_of (save s e) = s
         \<and> calls_of (save s e) \<noteq> [] \<and> last (calls_of (save s e)) = Unlink (schema s @ ''.tmp''))"
  by (auto simp: save_def save_succeeds_def result_of_def state_of_def calls_of_def Let_def
      split: sum.splits option.splits)

lemma create_body_alt:
  "create_body s e ob =
     (if batch_full (snd (create_store s e ob)) then
        (map_sum id (\<lambda>u. fst (create_store s e ob)) (result_of (save (snd (create_store s e ob)) e)),
         state_of (save (snd (create_store s e ob)) e),
         calls_of (save (snd (create_store s e ob)) e))
      else (Inr (fst (create_store s e ob)), snd (create_store s e ob), []))"
  by (auto simp: create_body_def result_of_def state_of_def calls_of_def
      split: prod.splits sum.splits)

lemma state_of_save:
  "state_of (save s e) = (if save_succeeds s e then s\<lparr>dirty := False, lastSave := Date_now e\<rparr> else s)"
  using save_result_cases [of s e] by (auto simp: state_of_def)

section \<open>The cache and the dirty flag across a call\<close>

lemma cache_buildIndexes: "cache (buildIndexes s) = cache s"
  by (simp add: buildIndexes_def Let_def)

lemma dirty_buildIndexes: "dirty (buildIndexes s) = dirty s"
  by (simp add: buildIndexes_def Let_def)

lemma cache_load: "cache (state_of (load s e)) = cache s"
  by (simp add: load_def load_catch_def state_of_def Let_def cache_buildIndexes split: sum.splits)

lemma dirty_load: "dirty (state_of (load s e)) = dirty s"
  by (simp add: load_def load_catch_def state_of_def Let_def dirty_buildIndexes split: sum.splits)

lemma init_frame: "cache (state_of (init s e)) = cache s \<and> dirty (state_of (init s e)) = dirty s"
proof (cases "isInitialized s")
  case True
  then show ?thesis by (simp add: init_initialized state_of_def)
next
  case False
  obtain r s1 c where ld: "load (initWorkers s e) e = (r, s1, c)"
    by (cases "load (initWorkers s e) e")
  have "cache s1 = cache s \<and> dirty s1 = dirty s"
    using cache_load [of "initWorkers s e" e] dirty_load [of "initWorkers s e" e] ld
    by (simp add: initWorkers_def state_of_def)
  with False ld show ?thesis
    by (cases r) (simp_all add: init_def state_of_def)
qed

lemma cache_init: "cache (state_of (init s e)) = cache s"
  by (simp add: init_frame)

lemma dirty_init: "dirty (state_of (init s e)) = dirty s"
  by (simp add: init_frame)

lemma cache_save: "cache (state_of (save s e)) = cache s"
  by (simp add: save_def state_of_def Let_def split: sum.splits option.splits)

lemma cache_create_body: "cache (state_of (create_body s e ob)) = cache s"
  by (simp add: create_body_alt state_of_save create_store_def Let_def) (simp add: state_of_def)

lemma cache_update_body: "cache (state_of (update_body s rid updates)) = cache s"
  by (simp add: update_body_def state_of_def Let_def split: option.splits)

lemma cache_delete_body: "cache (state_of (delete_body s rid)) = cache s"
  by (simp add: delete_body_def state_of_def split: option.splits)

lemma cache_after_init:
  assumes "\<And>s1. cache (state_of (body s1)) = cache s1"
  shows "cache (state_of (after_init s e body)) = cache s"
  by (rule after_init_preserves [where P = "\<lambda>t. cache t = cache s"])
     (simp_all add: cache_init assms)

lemma dirty_after_init:
  assumes "\<And>s1. dirty s1 \<Longrightarrow> dirty (state_of (body s1))" and "dirty s"
  shows "dirty (state_of (after_init s e body))"
  by (rule after_init_preserves [where P = dirty]) (simp_all add: dirty_init assms)

section \<open>The smallest-set loop\<close>

lemma smallest_fold_None:
  "fold (smallest_step idx q) keys acc = None \<longleftrightarrow>
     acc = None \<and> (\<forall>key \<in> set keys. idx_lookup idx key (obj_get q key) = None)"
  by (induction keys arbitrary: acc)
     (auto simp: smallest_step_def split: option.splits prod.splits)

lemma smallest_fold_Some:
  "fold (smallest_step idx q) keys acc = Some (S, k) \<Longrightarrow>
     acc = Some (S, k) \<or> (\<exists>key \<in> set keys. idx_lookup idx key (obj_get q key) = Some S)"
proof (induction keys arbitrary: acc)
  case Nil
  then show ?case by simp
next
  case (Cons key keys)
  from Cons.prems have "fold (smallest_step idx q) keys (smallest_step idx q key acc) = Some (S, k)"
    by simp
  from Cons.IH [OF this] show ?case
    by (auto simp: smallest_step_def split: option.splits prod.splits if_splits)
qed

lemma query_by_index_empty_index: "indexes s = [] \<Longrightarrow> query_by_index s q = None"
  by (simp add: query_by_index_def Let_def smallest_fold_None [THEN iffD2] idx_lookup_def)

section \<open>Unknown ids and the cache\<close>

text \<open>
  C9. \<open>create\<close>, \<open>update\<close> and \<open>delete\<close> leave the result cache as it is, whatever the
  state and the arguments, and also when they run \<open>init\<close> or a save.
\<close>

theorem mutations_keep_cache:
  "cache (state_of (create s e ob)) = cache s
   \<and> cache (state_of (update s e rid updates)) = cache s
   \<and> cache (state_of (delete s e rid)) = cache s"
  unfolding create_def update_def delete_def
  by (simp add: cache_after_init cache_create_body cache_update_body cache_delete_body)

theorem mutations_keep_cache_witness:
  "cache (state_of (create sample_db sample_env [(''name'', JStr ''B'')])) = cache sample_db
   \<and> cache (state_of (update sample_db sample_env (JStr ''a'') [(''age'', JNum 31)]))
       = [(''query:age'', [[(''id'', JStr ''a''), (''name'', JStr ''X''), (''age'', JNum 30)]])]
   \<and> cache (state_of (delete sample_db sample_env (JStr ''a'')))
       = [(''query:age'', [[(''id'', JStr ''a''), (''name'', JStr ''X''), (''age'', JNum 30)]])]"
  using mutations_keep_cache [of sample_db sample_env "[(''name'', JStr ''B'')]" "JStr ''a''"
      "[(''age'', JNum 31)]"]
  by (simp add: sample_db_def)

text \<open>
  C5. Once \<open>init\<close> has succeeded, \<open>update\<close> of an id that is not stored returns \<open>null\<close> and
  \<open>delete\<close> of it returns \<open>false\<close>; neither throws, and the state is the one \<open>init\<close> left.
  On a store that was initialised before, that is the state before the call: records,
  index, cache and dirty flag are what they were.
\<close>

theorem not_found_is_sentinel:
  assumes "result_of (init s e) = Inr ()" and "map_of (data (state_of (init s e))) rid = None"
  shows "result_of (update s e rid updates) = Inr None
         \<and> state_of (update s e rid updates) = state_of (init s e)
         \<and> result_of (delete s e rid) = Inr False
         \<and> state_of (delete s e rid) = state_of (init s e)
         \<and> (isInitialized s \<longrightarrow> update s e rid updates = (Inr None, s, [])
                                 \<and> delete s e rid = (Inr False, s, []))"
proof -
  have s: "isInitialized s \<Longrightarrow> state_of (init s e) = s"
    by (simp add: init_initialized state_of_def)
  show ?thesis
    unfolding update_def delete_def after_init_success [OF assms(1)]
    using assms(2) s
    by (auto simp: update_body_def delete_body_def result_of_def state_of_def
        after_init_initialized)
qed

theorem not_found_is_sentinel_witness:
  "result_of (init sample_db sample_env) = Inr ()
   \<and> map_of (data (state_of (init sample_db sample_env))) (JStr ''zz'') = None
   \<and> isInitialized sample_db
   \<and> update sample_db sample_env (JStr ''zz'') [(''age'', JNum 31)] = (Inr None, sample_db, [])
   \<and> delete sample_db sample_env (JStr ''zz'') = (Inr False, sample_db, [])"
proof -
  have i: "isInitialized sample_db" by (simp add: sample_db_def)
  have r: "result_of (init sample_db sample_env) = Inr ()"
    by (simp add: init_initialized [OF i] result_of_def)
  have d: "map_of (data (state_of (init sample_db sample_env))) (JStr ''zz'') = None"
    by (simp add: init_initialized [OF i] state_of_def) (simp add: sample_db_def)
  from not_found_is_sentinel [OF r d, of "[(''age'', JNum 31)]"] i r d
  show ?thesis by simp
qed

section \<open>Update and create\<close>

text \<open>
  C4. Once \<open>init\<close> has succeeded, for a record \<open>old\<close> stored under id \<open>rid\<close> and a partial
  field map \<open>p\<close>, \<open>update\<close> returns and stores the record \<open>{...old, ...p}\<close>: every field of
  \<open>p\<close> has the value \<open>p\<close> gives it, every other field has the value it had, and every
  field of the old record is still there.
\<close>

theorem update_merges:
  assumes "result_of (init s e) = Inr ()"
    and "map_of (data (state_of (init s e))) rid = Some old"
    and "wf_obj p"
  shows "\<exists>new. new = spread old p
           \<and> result_of (update s e rid p) = Inr (Some new)
           \<and> map_of (data (state_of (update s e rid p))) rid = Some new
           \<and> (\<forall>k v. map_of p k = Some v \<longrightarrow> map_of new k = Some v)
           \<and> (\<forall>k. map_of p k = None \<longrightarrow> map_of new k = map_of old k)
           \<and> fst ` set old \<subseteq> fst ` set new"
proof -
  have rp: "map_of (rev p) = map_of p"
    using assms(3) by (simp add: wf_obj_def map_of_rev_distinct)
  have "result_of (update s e rid p) = Inr (Some (spread old p))"
    unfolding update_def after_init_success [OF assms(1)]
    using assms(2) by (simp add: update_body_def result_of_def Let_def)
  moreover have "map_of (data (state_of (update s e rid p))) rid = Some (spread old p)"
    unfolding update_def after_init_success [OF assms(1)]
    using assms(2) by (simp add: update_body_def state_of_def Let_def AList.update_conv')
  moreover have "\<forall>k v. map_of p k = Some v \<longrightarrow> map_of (spread old p) k = Some v"
    by (simp add: map_of_spread rp)
  moreover have "\<forall>k. map_of p k = None \<longrightarrow> map_of (spread old p) k = map_of old k"
    by (simp add: map_of_spread rp)
  moreover have "fst ` set old \<subseteq> fst ` set (spread old p)"
    by (simp add: keys_spread)
  ultimately show ?thesis by blast
qed

theorem update_merges_witness:
  "result_of (init sample_db sample_env) = Inr ()
   \<and> map_of (data (state_of (init sample_db sample_env))) (JStr ''a'')
       = Some [(''id'', JStr ''a''), (''name'', JStr ''X''), (''age'', JNum 30)]
   \<and> wf_obj [(''age'', JNum 31), (''city'', JStr ''Oslo'')]
   \<and> result_of (update sample_db sample_env (JStr ''a'') [(''age'', JNum 31), (''city'', JStr ''Oslo'')])
       = Inr (Some [(''id'', JStr ''a''), (''name'', JStr ''X''), (''age'', JNum 31),
                    (''city'', JStr ''Oslo'')])"
proof -
  have i: "isInitialized sample_db" by (simp add: sample_db_def)
  have r: "result_of (init sample_db sample_env) = Inr ()"
    by (simp add: init_initialized [OF i] result_of_def)
  have d: "map_of (data (state_of (init sample_db sample_env))) (JStr ''a'')
       = Some [(''id'', JStr ''a''), (''name'', JStr ''X''), (''age'', JNum 30)]"
    by (simp add: init_initialized [OF i] state_of_def) (simp add: sample_db_def)
  have w: "wf_obj [(''age'', JNum 31), (''city'', JStr ''Oslo'')]"
    by (simp add: wf_obj_def)
  from update_merges [OF r d w] r d w show ?thesis
    by (simp add: spread_def)
qed

text \<open>
  C10. \<open>create\<close> keeps a caller's id only when it is truthy. Once \<open>init\<close> has succeeded:
  when the \<open>id\<close> of the input is missing, \<open>null\<close>, \<open>false\<close>, \<open>0\<close>, \<open>NaN\<close> or the empty string,
  the record is stored under the uuid that \<open>uuidv4()\<close> gives, with that uuid as its
  \<open>id\<close> field, and otherwise under the id given; the stored record is what \<open>create\<close>
  returns, and the only other outcome is the error of the save that a full batch
  starts.
\<close>

theorem create_assigns_id:
  assumes "result_of (init s e) = Inr ()"
  shows "(let given = obj_get ob ''id'';
              rid = (if given \<in> {JUndefined, JNull, JBool False, JNum 0, JNaN, JStr []}
                     then JStr (uuidv4 e) else given);
              stored = AList.update ''id'' rid ob;
              out = create s e ob
          in map_of (data (state_of out)) rid = Some stored
             \<and> obj_get stored ''id'' = rid
             \<and> (\<forall>r. result_of out = Inr r \<longrightarrow> r = stored)
             \<and> (\<forall>err. result_of out = Inl err \<longrightarrow>
                   batch_full (snd (create_store (state_of (init s e)) e ob))
                   \<and> result_of (save (snd (create_store (state_of (init s e)) e ob)) e) = Inl err))"
proof -
  define s1 where "s1 = state_of (init s e)"
  define rid where "rid = (if truthy (obj_get ob ''id'') then obj_get ob ''id'' else JStr (uuidv4 e))"
  define stored where "stored = AList.update ''id'' rid ob"
  define s2 where "s2 = snd (create_store s1 e ob)"
  have cs: "create_store s1 e ob = (stored, s2)"
    by (simp add: s2_def stored_def rid_def create_store_def Let_def)
  have d2: "map_of (data s2) rid = Some stored"
    by (simp add: s2_def stored_def rid_def create_store_def Let_def AList.update_conv')
  have d3: "data (state_of (save s2 e)) = data s2"
    by (simp add: state_of_save)
  have res: "result_of (create s e ob) = result_of (create_body s1 e ob)"
    and st: "state_of (create s e ob) = state_of (create_body s1 e ob)"
    unfolding create_def s1_def by (rule after_init_success [OF assms])+
  have rid_eq: "rid = (if obj_get ob ''id'' \<in> {JUndefined, JNull, JBool False, JNum 0, JNaN, JStr []}
                     then JStr (uuidv4 e) else obj_get ob ''id'')"
    using truthy_iff [of "obj_get ob ''id''"] by (simp add: rid_def)
  have "state_of (create_body s1 e ob) = (if batch_full s2 then state_of (save s2 e) else s2)"
    by (simp add: create_body_alt cs state_of_def)
  with d2 d3 have "map_of (data (state_of (create s e ob))) rid = Some stored"
    by (simp add: st)
  moreover have "obj_get stored ''id'' = rid"
    by (simp add: stored_def obj_get_update_same)
  moreover have rb: "result_of (create_body s1 e ob)
      = (if batch_full s2 then map_sum id (\<lambda>u. stored) (result_of (save s2 e)) else Inr stored)"
    by (simp add: create_body_alt cs result_of_def)
  have "\<forall>r. result_of (create s e ob) = Inr r \<longrightarrow> r = stored"
    unfolding res rb by (cases "result_of (save s2 e)") auto
  moreover have "\<forall>err. result_of (create s e ob) = Inl err \<longrightarrow>
      batch_full s2 \<and> result_of (save s2 e) = Inl err"
    unfolding res rb by (cases "result_of (save s2 e)") (auto split: if_splits)
  ultimately show ?thesis
    unfolding Let_def rid_eq [symmetric] stored_def [symmetric] s2_def [symmetric]
      s1_def [symmetric] by blast
qed

theorem create_assigns_id_witness:
  "result_of (init sample_db sample_env) = Inr ()
   \<and> map_of (data (state_of (create sample_db sample_env [(''name'', JStr ''B''), (''id'', JNum 0)])))
         (JStr ''u-1'')
       = Some [(''name'', JStr ''B''), (''id'', JStr ''u-1'')]
   \<and> result_of (create sample_db sample_env [(''name'', JStr ''B''), (''id'', JNum 0)])
       = Inr [(''name'', JStr ''B''), (''id'', JStr ''u-1'')]"
proof -
  have i: "isInitialized sample_db" by (simp add: sample_db_def)
  have r0: "result_of (init sample_db sample_env) = Inr ()"
    by (simp add: init_initialized [OF i] result_of_def)
  have cs: "fst (create_store sample_db sample_env [(''name'', JStr ''B''), (''id'', JNum 0)])
      = [(''name'', JStr ''B''), (''id'', JStr ''u-1'')]"
    by (simp add: create_store_def Let_def obj_get_def sample_env_def)
  have sv: "result_of (save t sample_env) = Inr ()" for t
    using save_result_cases [of t sample_env]
    by (simp add: save_succeeds_def sample_env_def result_of_def)
  have r: "result_of (create sample_db sample_env [(''name'', JStr ''B''), (''id'', JNum 0)])
       = Inr [(''name'', JStr ''B''), (''id'', JStr ''u-1'')]"
    unfolding create_def after_init_initialized [OF i] create_body_alt
    by (simp add: result_of_def sv [unfolded result_of_def] cs)
  show ?thesis
    using create_assigns_id [OF r0, of "[(''name'', JStr ''B''), (''id'', JNum 0)]"] r r0
    by (simp add: Let_def obj_get_def)
qed

section \<open>Load\<close>

text \<open>
  C7. When \<open>readFile\<close> fails with code \<open>ENOENT\<close>, \<open>load\<close> succeeds with an empty record
  map; any other read error and any decode error is thrown to the caller, with the
  state untouched. A new database whose snapshot does not exist initialises, is empty,
  and answers a query with \<open>[]\<close>.
\<close>

theorem load_errors:
  "(\<forall>err. fs_readFile e = Inl err \<and> err_code err = Some ''ENOENT''
        \<longrightarrow> load s e = (Inr (), s\<lparr>data := []\<rparr>, [ReadFile (schema s)]))
   \<and> (\<forall>err. fs_readFile e = Inl err \<and> err_code err \<noteq> Some ''ENOENT''
        \<longrightarrow> load s e = (Inl err, s, [ReadFile (schema s)]))
   \<and> (\<forall>content msg. fs_readFile e = Inr content \<and> msgpack_decode e content = Inl msg
        \<longrightarrow> load s e = (Inl (Exception msg), s, [ReadFile (schema s)]))
   \<and> (\<forall>err. fs_readFile e = Inl err \<and> err_code err = Some ''ENOENT''
        \<longrightarrow> (let s1 = state_of (init (new_Database sch opts now) e)
             in result_of (init (new_Database sch opts now) e) = Inr ()
                \<and> isInitialized s1 \<and> data s1 = [] \<and> indexes s1 = []
                \<and> result_of (findByQuery s1 e query) = Inr []))"
proof -
  have q: "result_of (findByQuery t e query) = Inr []"
    if "isInitialized t" and "indexes t = []" and "cache t = []" for t
    using that
    by (simp add: findByQuery_def after_init_initialized findByQuery_body_def Let_def
        query_by_index_empty_index result_of_def)
  have n: "fs_readFile e = Inl err \<Longrightarrow> err_code err = Some ''ENOENT'' \<Longrightarrow>
      init (new_Database sch opts now) e
        = (Inr (), (initWorkers (new_Database sch opts now) e)\<lparr>data := [], isInitialized := True\<rparr>,
           [ReadFile sch])" for err
    by (simp add: init_def load_def load_catch_def Let_def new_Database_def initWorkers_def)
  have "fs_readFile e = Inl err \<Longrightarrow> err_code err = Some ''ENOENT'' \<Longrightarrow>
      (let s1 = state_of (init (new_Database sch opts now) e)
             in result_of (init (new_Database sch opts now) e) = Inr ()
                \<and> isInitialized s1 \<and> data s1 = [] \<and> indexes s1 = []
                \<and> result_of (findByQuery s1 e query) = Inr [])" for err
  proof -
    assume a: "fs_readFile e = Inl err" "err_code err = Some ''ENOENT''"
    let ?t = "(initWorkers (new_Database sch opts now) e)\<lparr>data := [], isInitialized := True\<rparr>"
    have st: "state_of (init (new_Database sch opts now) e) = ?t"
      and r: "result_of (init (new_Database sch opts now) e) = Inr ()"
      by (simp_all add: n [OF a] state_of_def result_of_def)
    have t: "isInitialized ?t" "data ?t = []" "indexes ?t = []" "cache ?t = []"
      by (simp_all add: initWorkers_def new_Database_def)
    from q [OF t(1,3,4)] t r show ?thesis
      unfolding Let_def st by blast
  qed
  then show ?thesis
    by (auto simp: load_def load_catch_def Let_def)
qed

theorem load_errors_witness:
  "fs_readFile sample_env = Inl (SystemError ''ENOENT'')
   \<and> load sample_db sample_env = (Inr (), sample_db\<lparr>data := []\<rparr>, [ReadFile ''db''])
   \<and> load sample_db (sample_env\<lparr>fs_readFile := Inl (SystemError ''EACCES'')\<rparr>)
       = (Inl (SystemError ''EACCES''), sample_db, [ReadFile ''db''])
   \<and> load sample_db (sample_env\<lparr>fs_readFile := Inr [1, 2]\<rparr>)
       = (Inl (Exception ''truncated''), sample_db, [ReadFile ''db''])
   \<and> result_of (init (new_Database ''db'' sample_options 0) sample_env) = Inr ()
   \<and> result_of (findByQuery (state_of (init (new_Database ''db'' sample_options 0) sample_env))
         sample_env [(''age'', JNum 25)]) = Inr []"
  using load_errors [of sample_env sample_db "''db''" sample_options 0 "[(''age'', JNum 25)]"]
    load_errors [of "sample_env\<lparr>fs_readFile := Inl (SystemError ''EACCES'')\<rparr>" sample_db]
    load_errors [of "sample_env\<lparr>fs_readFile := Inr [1, 2]\<rparr>" sample_db]
  by (simp add: sample_env_def sample_db_def Let_def)

section \<open>Save and the dirty flag\<close>

lemma dirty_create_store: "dirty (snd (create_store s e ob))"
  by (simp add: create_store_def Let_def)

lemma state_of_create_body:
  "state_of (create_body s e ob)
     = (if batch_full (snd (create_store s e ob)) \<and> save_succeeds (snd (create_store s e ob)) e
        then (snd (create_store s e ob))\<lparr>dirty := False, lastSave := Date_now e\<rparr>
        else snd (create_store s e ob))"
proof -
  have "state_of (create_body s e ob)
      = (if batch_full (snd (create_store s e ob)) then state_of (save (snd (create_store s e ob)) e)
         else snd (create_store s e ob))"
    by (simp add: create_body_alt state_of_def)
  then show ?thesis by (simp add: state_of_save)
qed

lemma dirty_kept_update: "dirty s \<Longrightarrow> dirty (state_of (update s e rid updates))"
  unfolding update_def
  by (rule dirty_after_init) (simp_all add: update_body_def state_of_def Let_def split: option.splits)

lemma dirty_kept_delete: "dirty s \<Longrightarrow> dirty (state_of (delete s e rid))"
  unfolding delete_def
  by (rule dirty_after_init) (simp_all add: delete_body_def state_of_def split: option.splits)

lemma dirty_same_after_init:
  assumes "\<And>s1. dirty (state_of (body s1)) = dirty s1"
  shows "dirty (state_of (after_init s e body)) = dirty s"
  by (rule after_init_preserves [where P = "\<lambda>t. dirty t = dirty s"])
     (simp_all add: dirty_init assms)

lemma dirty_same_findByQuery: "dirty (state_of (findByQuery s e query)) = dirty s"
  unfolding findByQuery_def
  by (rule dirty_same_after_init)
     (simp add: findByQuery_body_def state_of_def Let_def split: option.splits)

lemma dirty_same_findByKey: "dirty (state_of (findByKey s e key val)) = dirty s"
  unfolding findByKey_def
  by (rule dirty_same_after_init)
     (simp add: findByKey_body_def state_of_def Let_def split: option.splits)

lemma dirty_same_read: "dirty (state_of (read s e)) = dirty s"
  unfolding read_def by (rule dirty_same_after_init) (simp add: state_of_def)

lemma dirty_create_init_failed:
  assumes "result_of (init s e) \<noteq> Inr ()"
  shows "dirty (state_of (create s e ob)) = dirty s"
proof -
  from assms obtain err where "result_of (init s e) = Inl err"
    by (cases "result_of (init s e)") auto
  then have "create s e ob = (Inl err, state_of (init s e), calls_of (init s e))"
    unfolding create_def by (rule after_init_failure)
  then have "state_of (create s e ob) = state_of (init s e)"
    by (simp add: state_of_def)
  then show ?thesis by (simp add: dirty_init)
qed

text \<open>
  C6. \<open>create\<close> sets the dirty flag, and so do \<open>update\<close> and \<open>delete\<close> of a stored id (for
  an id that is not stored they change nothing at all). The flag is cleared exactly when
  a save goes through: a save that goes through clears it and sets \<open>lastSave\<close> to the
  clock; after \<open>create\<close> the flag is clear exactly when the batch was full and the save
  that this started went through (if \<open>init\<close> throws, \<open>create\<close> leaves the flag as it was);
  \<open>update\<close> and \<open>delete\<close> keep a set flag set; \<open>findByQuery\<close>, \<open>findByKey\<close>, \<open>read\<close> and
  \<open>init\<close> leave the flag as it is. A save whose encode, write or rename fails throws that
  error, leaves the whole state (so the dirty flag) as it was, and its last file
  operation is the \<open>unlink\<close> of the temporary file.
\<close>

theorem dirty_flag_discipline:
  "dirty (snd (create_store s e ob))
   \<and> (result_of (init s e) = Inr () \<longrightarrow>
        dirty (state_of (create s e ob))
          = (\<not> (batch_full (snd (create_store (state_of (init s e)) e ob))
                \<and> save_succeeds (snd (create_store (state_of (init s e)) e ob)) e)))
   \<and> (result_of (init s e) \<noteq> Inr () \<longrightarrow> dirty (state_of (create s e ob)) = dirty s)
   \<and> (result_of (init s e) = Inr () \<and> map_of (data (state_of (init s e))) rid \<noteq> None \<longrightarrow>
        dirty (state_of (update s e rid updates)) \<and> dirty (state_of (delete s e rid)))
   \<and> (dirty s \<longrightarrow>
        dirty (state_of (update s e rid updates)) \<and> dirty (state_of (delete s e rid))
        \<and> dirty (state_of (findByQuery s e query)) \<and> dirty (state_of (init s e)))
   \<and> dirty (state_of (findByQuery s e query)) = dirty s
   \<and> dirty (state_of (findByKey s e key val)) = dirty s
   \<and> dirty (state_of (read s e)) = dirty s
   \<and> dirty (state_of (init s e)) = dirty s
   \<and> (save_succeeds s e \<longrightarrow>
        result_of (save s e) = Inr ()
        \<and> state_of (save s e) = s\<lparr>dirty := False, lastSave := Date_now e\<rparr>)
   \<and> (\<not> save_succeeds s e \<longrightarrow>
        (\<exists>err. result_of (save s e) = Inl err) \<and> state_of (save s e) = s
        \<and> last (calls_of (save s e)) = Unlink (schema s @ ''.tmp''))
   \<and> (msgpack_encode e (map snd (data s)) = Inr packed \<and> fs_writeFile e = Some err \<longrightarrow>
        save s e = (Inl err, s, [WriteFile (schema s @ ''.tmp'') packed, Unlink (schema s @ ''.tmp'')]))
   \<and> (msgpack_encode e (map snd (data s)) = Inr packed \<and> fs_writeFile e = None
        \<and> fs_rename e = Some err \<longrightarrow>
        save s e = (Inl err, s, [WriteFile (schema s @ ''.tmp'') packed,
                                 Rename (schema s @ ''.tmp'') (schema s),
                                 Unlink (schema s @ ''.tmp'')]))"
proof -
  have c: "result_of (init s e) = Inr () \<longrightarrow>
        dirty (state_of (create s e ob))
          = (\<not> (batch_full (snd (create_store (state_of (init s e)) e ob))
                \<and> save_succeeds (snd (create_store (state_of (init s e)) e ob)) e))"
  proof
    assume i: "result_of (init s e) = Inr ()"
    show "dirty (state_of (create s e ob))
          = (\<not> (batch_full (snd (create_store (state_of (init s e)) e ob))
                \<and> save_succeeds (snd (create_store (state_of (init s e)) e ob)) e))"
      unfolding create_def after_init_success [OF i] state_of_create_body
      by (simp add: dirty_create_store)
  qed
  have cf: "result_of (init s e) \<noteq> Inr () \<longrightarrow> dirty (state_of (create s e ob)) = dirty s"
    by (simp add: dirty_create_init_failed)
  have u: "result_of (init s e) = Inr () \<and> map_of (data (state_of (init s e))) rid \<noteq> None \<longrightarrow>
        dirty (state_of (update s e rid updates)) \<and> dirty (state_of (delete s e rid))"
  proof
    assume a: "result_of (init s e) = Inr () \<and> map_of (data (state_of (init s e))) rid \<noteq> None"
    then have i: "result_of (init s e) = Inr ()" by simp
    from a obtain old where o: "map_of (data (state_of (init s e))) rid = Some old" by auto
    have "dirty (state_of (update_body (state_of (init s e)) rid updates))"
      and "dirty (state_of (delete_body (state_of (init s e)) rid))"
      by (simp_all add: update_body_def delete_body_def o Let_def) (simp_all add: state_of_def)
    then show "dirty (state_of (update s e rid updates)) \<and> dirty (state_of (delete s e rid))"
      unfolding update_def delete_def after_init_success [OF i] by simp
  qed
  have k: "dirty s \<longrightarrow>
        dirty (state_of (update s e rid updates)) \<and> dirty (state_of (delete s e rid))
        \<and> dirty (state_of (findByQuery s e query)) \<and> dirty (state_of (init s e))"
    by (simp add: dirty_kept_update dirty_kept_delete dirty_same_findByQuery dirty_init)
  have same: "dirty (state_of (findByQuery s e query)) = dirty s
      \<and> dirty (state_of (findByKey s e key val)) = dirty s
      \<and> dirty (state_of (read s e)) = dirty s
      \<and> dirty (state_of (init s e)) = dirty s"
    by (simp add: dirty_same_findByQuery dirty_same_findByKey dirty_same_read dirty_init)
  have ok: "save_succeeds s e \<longrightarrow>
        result_of (save s e) = Inr ()
        \<and> state_of (save s e) = s\<lparr>dirty := False, lastSave := Date_now e\<rparr>"
    using save_result_cases [of s e] by (auto simp: result_of_def state_of_def)
  have bad: "\<not> save_succeeds s e \<longrightarrow>
        (\<exists>err. result_of (save s e) = Inl err) \<and> state_of (save s e) = s
        \<and> last (calls_of (save s e)) = Unlink (schema s @ ''.tmp'')"
    using save_result_cases [of s e] by blast
  have w: "msgpack_encode e (map snd (data s)) = Inr packed \<and> fs_writeFile e = Some err \<longrightarrow>
        save s e = (Inl err, s, [WriteFile (schema s @ ''.tmp'') packed, Unlink (schema s @ ''.tmp'')])"
    by (simp add: save_def Let_def)
  have r: "msgpack_encode e (map snd (data s)) = Inr packed \<and> fs_writeFile e = None
        \<and> fs_rename e = Some err \<longrightarrow>
        save s e = (Inl err, s, [WriteFile (schema s @ ''.tmp'') packed,
                                 Rename (schema s @ ''.tmp'') (schema s),
                                 Unlink (schema s @ ''.tmp'')])"
    by (simp add: save_def Let_def)
  from dirty_create_store [of s e ob] c cf u k same ok bad w r
  show ?thesis by blast
qed

theorem dirty_flag_discipline_witness:
  "dirty (state_of (create sample_db (sample_env\<lparr>fs_rename := Some (SystemError ''EACCES'')\<rparr>)
        [(''name'', JStr ''B'')]))
   \<and> \<not> dirty (state_of (create sample_db sample_env [(''name'', JStr ''B'')]))
   \<and> dirty (state_of (update sample_db sample_env (JStr ''a'') [(''age'', JNum 31)]))
   \<and> dirty (state_of (delete sample_db sample_env (JStr ''a'')))
   \<and> \<not> dirty (state_of (findByKey sample_db sample_env ''name'' (JStr ''X'')))
   \<and> dirty (state_of (findByKey (sample_db\<lparr>dirty := True\<rparr>) sample_env ''name'' (JStr ''X'')))
   \<and> save (sample_db\<lparr>dirty := True\<rparr>) sample_env
       = (Inr (), sample_db\<lparr>dirty := False, lastSave := 7\<rparr>,
          [WriteFile ''db.tmp'' [1], Rename ''db.tmp'' ''db''])
   \<and> save (sample_db\<lparr>dirty := True\<rparr>) (sample_env\<lparr>fs_rename := Some (SystemError ''EACCES'')\<rparr>)
       = (Inl (SystemError ''EACCES''), sample_db\<lparr>dirty := True\<rparr>,
          [WriteFile ''db.tmp'' [1], Rename ''db.tmp'' ''db'', Unlink ''db.tmp''])"
proof -
  let ?bad = "sample_env\<lparr>fs_rename := Some (SystemError ''EACCES'')\<rparr>"
  have i: "isInitialized sample_db" by (simp add: sample_db_def)
  have r0: "result_of (init sample_db x) = Inr ()" and s0: "state_of (init sample_db x) = sample_db"
    for x by (simp_all add: init_initialized [OF i] result_of_def state_of_def)
  have a: "map_of (data sample_db) (JStr ''a'') \<noteq> None" by (simp add: sample_db_def)
  have full: "batch_full (snd (create_store sample_db sample_env [(''name'', JStr ''B'')]))"
    "batch_full (snd (create_store sample_db ?bad [(''name'', JStr ''B'')]))"
    by (simp_all add: batch_full_def create_store_def Let_def sample_db_def sample_env_def obj_get_def)
  have ok: "save_succeeds t sample_env" for t
    by (simp add: save_succeeds_def sample_env_def)
  have bad: "\<not> save_succeeds t ?bad" for t
    by (simp add: save_succeeds_def sample_env_def)
  have enc: "msgpack_encode ?bad (map snd (data (sample_db\<lparr>dirty := True\<rparr>))) = Inr [1]
      \<and> fs_writeFile ?bad = None \<and> fs_rename ?bad = Some (SystemError ''EACCES'')"
    by (simp add: sample_env_def sample_db_def)
  have sv: "save (sample_db\<lparr>dirty := True\<rparr>) sample_env
       = (Inr (), sample_db\<lparr>dirty := False, lastSave := 7\<rparr>,
          [WriteFile ''db.tmp'' [1], Rename ''db.tmp'' ''db''])"
    by (simp add: save_def Let_def sample_env_def sample_db_def)
  have cl: "\<not> dirty sample_db" by (simp add: sample_db_def)
  from dirty_flag_discipline [where s = sample_db and e = ?bad and ob = "[(''name'', JStr ''B'')]"
      and rid = "JStr ''a''" and updates = "[(''age'', JNum 31)]" and query = "[]"
      and key = "''name''" and val = "JStr ''X''" and packed = "[1]"
      and err = "SystemError ''EACCES''"] r0 [of ?bad] full bad
  have c1: "dirty (state_of (create sample_db ?bad [(''name'', JStr ''B'')]))"
    unfolding s0 by blast
  from dirty_flag_discipline [where s = "sample_db\<lparr>dirty := True\<rparr>" and e = ?bad
      and ob = "[(''name'', JStr ''B'')]" and rid = "JStr ''a''" and updates = "[(''age'', JNum 31)]"
      and query = "[]" and key = "''name''" and val = "JStr ''X''" and packed = "[1]"
      and err = "SystemError ''EACCES''"] enc
  have c6: "save (sample_db\<lparr>dirty := True\<rparr>) ?bad
       = (Inl (SystemError ''EACCES''), sample_db\<lparr>dirty := True\<rparr>,
          [WriteFile ''db.tmp'' [1], Rename ''db.tmp'' ''db'', Unlink ''db.tmp''])"
    by (simp add: sample_db_def)
  from dirty_flag_discipline [where s = "sample_db\<lparr>dirty := True\<rparr>" and e = sample_env
      and ob = "[(''name'', JStr ''B'')]" and rid = "JStr ''a''" and updates = "[(''age'', JNum 31)]"
      and query = "[]" and key = "''name''" and val = "JStr ''X''" and packed = "[1]"
      and err = "SystemError ''EACCES''"]
  have c7: "dirty (state_of (findByKey (sample_db\<lparr>dirty := True\<rparr>) sample_env ''name'' (JStr ''X'')))"
    by simp
  from dirty_flag_discipline [where s = sample_db and e = sample_env
      and ob = "[(''name'', JStr ''B'')]" and rid = "JStr ''a''" and updates = "[(''age'', JNum 31)]"
      and query = "[]" and key = "''name''" and val = "JStr ''X''" and packed = "[1]"
      and err = "SystemError ''EACCES''"] r0 [of sample_env] a full ok cl
  have c2: "\<not> dirty (state_of (create sample_db sample_env [(''name'', JStr ''B'')]))"
    and c3: "dirty (state_of (update sample_db sample_env (JStr ''a'') [(''age'', JNum 31)]))"
    and c4: "dirty (state_of (delete sample_db sample_env (JStr ''a'')))"
    and c5: "\<not> dirty (state_of (findByKey sample_db sample_env ''name'' (JStr ''X'')))"
    unfolding s0 by blast+
  from c1 c2 c3 c4 c5 c7 sv c6 show ?thesis by blast
qed

section \<open>Bulk index build\<close>

lemma set_update_subset: "set (AList.update k v al) \<subseteq> insert (k, v) (set al)"
  by (induction al) auto

lemma key_None_fold_add:
  "(map_of (fold (index_add rid) ob idx) k = None) = (map_of idx k = None \<and> k \<notin> fst ` set ob)"
proof (induction ob arbitrary: idx)
  case Nil
  show ?case by simp
next
  case (Cons p ob)
  obtain k0 v0 where p: "p = (k0, v0)" by (cases p)
  show ?case by (auto simp: Cons.IH p has_key_index_add)
qed

lemma lookup_None_fold_add:
  "(idx_lookup (fold (index_add rid) ob idx) k v = None)
     = (idx_lookup idx k v = None \<and> (k, v) \<notin> set ob)"
proof (induction ob arbitrary: idx)
  case Nil
  show ?case by simp
next
  case (Cons p ob)
  obtain k0 v0 where p: "p = (k0, v0)" by (cases p)
  show ?case by (auto simp: Cons.IH p idx_lookup_index_add)
qed

lemma key_None_build:
  "(map_of (fold (\<lambda>(rid, ob). fold (index_add rid) ob) dat idx) k = None)
     = (map_of idx k = None \<and> (\<forall>(rid, ob) \<in> set dat. k \<notin> fst ` set ob))"
proof (induction dat arbitrary: idx)
  case Nil
  show ?case by simp
next
  case (Cons p dat)
  obtain rid ob where p: "p = (rid, ob)" by (cases p)
  show ?case by (auto simp: Cons.IH p key_None_fold_add)
qed

lemma lookup_None_build:
  "(idx_lookup (fold (\<lambda>(rid, ob). fold (index_add rid) ob) dat idx) k v = None)
     = (idx_lookup idx k v = None \<and> (\<forall>(rid, ob) \<in> set dat. (k, v) \<notin> set ob))"
proof (induction dat arbitrary: idx)
  case Nil
  show ?case by simp
next
  case (Cons p dat)
  obtain rid ob where p: "p = (rid, ob)" by (cases p)
  show ?case by (auto simp: Cons.IH p lookup_None_fold_add)
qed

lemma idx_ids_build:
  "idx_ids (fold (\<lambda>(rid, ob). fold (index_add rid) ob) dat idx) k v
     = idx_ids idx k v \<union> {rid. \<exists>ob. (rid, ob) \<in> set dat \<and> (k, v) \<in> set ob}"
proof (induction dat arbitrary: idx)
  case Nil
  show ?case by simp
next
  case (Cons p dat)
  obtain rid ob where p: "p = (rid, ob)" by (cases p)
  show ?case by (auto simp: Cons.IH p idx_ids_fold_add split: if_splits)
qed

lemma wf_index_add: "wf_index idx \<Longrightarrow> wf_index (index_add rid kv idx)"
proof -
  assume wf: "wf_index idx"
  obtain key val where kv: "kv = (key, val)" by (cases kv)
  define idx1 where "idx1 = (if map_of idx key = None then AList.update key [] idx else idx)"
  define valueMap where "valueMap = (case map_of idx1 key of None \<Rightarrow> [] | Some m \<Rightarrow> m)"
  define valueMap1 where
    "valueMap1 = (if map_of valueMap val = None then AList.update val [] valueMap else valueMap)"
  define ids where "ids = (case map_of valueMap1 val of None \<Rightarrow> [] | Some s \<Rightarrow> s)"
  have res: "index_add rid kv idx
      = AList.update key (AList.update val (Set_add rid ids) valueMap1) idx1"
    by (simp add: index_add_def kv Let_def idx1_def valueMap_def valueMap1_def ids_def)
  have wf1: "wf_index idx1"
    using wf set_update_subset [of key "[]" idx]
    by (auto simp: idx1_def wf_index_def AList.distinct_update)
  have "distinct (map fst valueMap)"
    using wf1 by (auto simp: valueMap_def wf_index_def split: option.splits dest: map_of_SomeD)
  then have "distinct (map fst (AList.update val (Set_add rid ids) valueMap1))"
    by (simp add: valueMap1_def AList.distinct_update)
  with wf1 set_update_subset [of key "AList.update val (Set_add rid ids) valueMap1" idx1]
  show ?thesis
    unfolding res by (auto simp: wf_index_def AList.distinct_update)
qed

lemma wf_index_fold_add: "wf_index idx \<Longrightarrow> wf_index (fold (index_add rid) ob idx)"
  by (induction ob arbitrary: idx) (simp_all add: wf_index_add)

lemma wf_index_build:
  "wf_index idx \<Longrightarrow> wf_index (fold (\<lambda>(rid, ob). fold (index_add rid) ob) dat idx)"
  by (induction dat arbitrary: idx) (auto simp: wf_index_fold_add)

lemma wf_index_buildIndexChunk: "wf_index (buildIndexChunk dat)"
proof -
  have "wf_index []" by (simp add: wf_index_def)
  then show ?thesis by (simp add: buildIndexChunk_def wf_index_build)
qed

lemma key_None_merge_ids:
  "(map_of (merge_ids key val ids idx) k = None) = (k \<noteq> key \<and> map_of idx k = None)"
  by (auto simp: merge_ids_def Let_def AList.update_conv')

lemma idx_lookup_merge_ids:
  "idx_lookup (merge_ids key val ids idx) k v =
     (if k = key \<and> v = val
      then Some (fold Set_add ids (case idx_lookup idx key val of None \<Rightarrow> [] | Some s \<Rightarrow> s))
      else idx_lookup idx k v)"
  by (auto simp: idx_lookup_def merge_ids_def Let_def AList.update_conv' split: option.splits)

lemma idx_ids_merge_ids:
  "idx_ids (merge_ids key val ids idx) k v =
     (if k = key \<and> v = val then set ids \<union> idx_ids idx key val else idx_ids idx k v)"
  by (auto simp: idx_ids_def idx_lookup_merge_ids set_fold_Set_add split: option.splits)

lemma key_None_merge_values:
  "(map_of (fold (\<lambda>(val, ids). merge_ids key val ids) valueMap idx) k = None)
     = (map_of idx k = None \<and> (k \<noteq> key \<or> valueMap = []))"
proof (induction valueMap arbitrary: idx)
  case Nil
  show ?case by simp
next
  case (Cons p valueMap)
  obtain val ids where p: "p = (val, ids)" by (cases p)
  show ?case by (auto simp: Cons.IH p key_None_merge_ids)
qed

lemma lookup_None_merge_values:
  "(idx_lookup (fold (\<lambda>(val, ids). merge_ids key val ids) valueMap idx) k v = None)
     = (idx_lookup idx k v = None \<and> \<not> (k = key \<and> v \<in> fst ` set valueMap))"
proof (induction valueMap arbitrary: idx)
  case Nil
  show ?case by simp
next
  case (Cons p valueMap)
  obtain val ids where p: "p = (val, ids)" by (cases p)
  show ?case by (auto simp: Cons.IH p idx_lookup_merge_ids)
qed

lemma idx_ids_merge_values:
  "idx_ids (fold (\<lambda>(val, ids). merge_ids key val ids) valueMap idx) k v
     = idx_ids idx k v \<union>
       (if k = key then {rid. \<exists>ids. (v, ids) \<in> set valueMap \<and> rid \<in> set ids} else {})"
proof (induction valueMap arbitrary: idx)
  case Nil
  show ?case by simp
next
  case (Cons p valueMap)
  obtain val ids where p: "p = (val, ids)" by (cases p)
  show ?case by (auto simp: Cons.IH p idx_ids_merge_ids split: if_splits)
qed

lemma idx_lookup_ensure_key:
  "map_of idx key = None \<Longrightarrow> idx_lookup (AList.update key [] idx) k v = idx_lookup idx k v"
  by (simp add: idx_lookup_def AList.update_conv')

lemma idx_ids_ensure_key:
  "map_of idx key = None \<Longrightarrow> idx_ids (AList.update key [] idx) k v = idx_ids idx k v"
  by (simp add: idx_ids_def idx_lookup_ensure_key)

lemma key_None_merge_key:
  "(map_of (merge_key key valueMap idx) k = None) = (k \<noteq> key \<and> map_of idx k = None)"
  by (auto simp: merge_key_def Let_def key_None_merge_values AList.update_conv')

lemma lookup_None_merge_key:
  "(idx_lookup (merge_key key valueMap idx) k v = None)
     = (idx_lookup idx k v = None \<and> \<not> (k = key \<and> v \<in> fst ` set valueMap))"
  by (simp add: merge_key_def Let_def lookup_None_merge_values idx_lookup_ensure_key)

lemma idx_ids_merge_key:
  "idx_ids (merge_key key valueMap idx) k v
     = idx_ids idx k v \<union>
       (if k = key then {rid. \<exists>ids. (v, ids) \<in> set valueMap \<and> rid \<in> set ids} else {})"
  by (simp add: merge_key_def Let_def idx_ids_merge_values idx_ids_ensure_key)

lemma key_None_merge_worker:
  "(map_of (merge_worker w idx) k = None) = (map_of idx k = None \<and> k \<notin> fst ` set w)"
  unfolding merge_worker_def
proof (induction w arbitrary: idx)
  case Nil
  show ?case by simp
next
  case (Cons p w)
  obtain key valueMap where p: "p = (key, valueMap)" by (cases p)
  show ?case by (auto simp: Cons.IH p key_None_merge_key)
qed

lemma lookup_None_merge_worker:
  "(idx_lookup (merge_worker w idx) k v = None)
     = (idx_lookup idx k v = None \<and> \<not> (\<exists>valueMap. (k, valueMap) \<in> set w \<and> v \<in> fst ` set valueMap))"
  unfolding merge_worker_def
proof (induction w arbitrary: idx)
  case Nil
  show ?case by simp
next
  case (Cons p w)
  obtain key valueMap where p: "p = (key, valueMap)" by (cases p)
  show ?case by (auto simp: Cons.IH p lookup_None_merge_key)
qed

lemma idx_ids_merge_worker:
  "idx_ids (merge_worker w idx) k v
     = idx_ids idx k v \<union>
       {rid. \<exists>valueMap ids. (k, valueMap) \<in> set w \<and> (v, ids) \<in> set valueMap \<and> rid \<in> set ids}"
  unfolding merge_worker_def
proof (induction w arbitrary: idx)
  case Nil
  show ?case by simp
next
  case (Cons p w)
  obtain key valueMap where p: "p = (key, valueMap)" by (cases p)
  show ?case by (auto simp: Cons.IH p idx_ids_merge_key split: if_splits)
qed

lemma wf_index_lookup_mem:
  assumes "wf_index w"
  shows "(\<exists>valueMap. (k, valueMap) \<in> set w \<and> v \<in> fst ` set valueMap) = (idx_lookup w k v \<noteq> None)"
proof (cases "map_of w k")
  case None
  then have "\<And>valueMap. (k, valueMap) \<notin> set w"
    by (metis weak_map_of_SomeI assms wf_index_def option.distinct(1))
  with None show ?thesis by (simp add: idx_lookup_def)
next
  case (Some vm)
  have d: "distinct (map fst w)" using assms by (simp add: wf_index_def)
  have "((k, valueMap) \<in> set w) = (valueMap = vm)" for valueMap
    using Some map_of_eq_Some_iff [OF d, of k valueMap] by auto
  then have "(\<exists>valueMap. (k, valueMap) \<in> set w \<and> v \<in> fst ` set valueMap) = (v \<in> fst ` set vm)"
    by simp
  also have "\<dots> = (map_of vm v \<noteq> None)"
    by (simp add: map_of_eq_None_iff)
  finally show ?thesis using Some by (simp add: idx_lookup_def)
qed

lemma wf_index_ids_mem:
  assumes "wf_index w"
  shows "{rid. \<exists>valueMap ids. (k, valueMap) \<in> set w \<and> (v, ids) \<in> set valueMap \<and> rid \<in> set ids}
           = idx_ids w k v"
proof -
  have d: "distinct (map fst w)" using assms by (simp add: wf_index_def)
  have e: "((k, vm) \<in> set w \<and> (v, ids) \<in> set vm \<and> P)
             = (map_of w k = Some vm \<and> map_of vm v = Some ids \<and> P)" for vm ids P
  proof (cases "(k, vm) \<in> set w")
    case True
    then have "distinct (map fst vm)" using assms by (auto simp: wf_index_def)
    then have "((v, ids) \<in> set vm) = (map_of vm v = Some ids)" by simp
    with True d show ?thesis by simp
  next
    case False
    with d show ?thesis by simp
  qed
  show ?thesis
    unfolding e by (auto simp: idx_ids_def idx_lookup_def split: option.splits)
qed

lemma key_None_merge_step:
  "(map_of (merge_worker w idx) k = None) = (map_of idx k = None \<and> map_of w k = None)"
  unfolding key_None_merge_worker by (simp add: map_of_eq_None_iff)

lemma key_None_merge_all:
  "(map_of (fold merge_worker ws idx) k = None)
     = (map_of idx k = None \<and> (\<forall>w \<in> set ws. map_of w k = None))"
  by (induction ws arbitrary: idx) (auto simp: key_None_merge_step)

lemma lookup_None_merge_all:
  "\<forall>w \<in> set ws. wf_index w \<Longrightarrow>
   (idx_lookup (fold merge_worker ws idx) k v = None)
     = (idx_lookup idx k v = None \<and> (\<forall>w \<in> set ws. idx_lookup w k v = None))"
proof (induction ws arbitrary: idx)
  case Nil
  show ?case by simp
next
  case (Cons w ws)
  from Cons.prems have wf: "wf_index w" and rest: "\<forall>w \<in> set ws. wf_index w" by simp_all
  have "(idx_lookup (merge_worker w idx) k v = None)
          = (idx_lookup idx k v = None \<and> idx_lookup w k v = None)"
    unfolding lookup_None_merge_worker wf_index_lookup_mem [OF wf] by simp
  with Cons.IH [OF rest] show ?case by auto
qed

lemma idx_ids_merge_all:
  "\<forall>w \<in> set ws. wf_index w \<Longrightarrow>
   idx_ids (fold merge_worker ws idx) k v = idx_ids idx k v \<union> (\<Union>w \<in> set ws. idx_ids w k v)"
proof (induction ws arbitrary: idx)
  case Nil
  show ?case by simp
next
  case (Cons w ws)
  from Cons.prems have wf: "wf_index w" and rest: "\<forall>w \<in> set ws. wf_index w" by simp_all
  have "idx_ids (merge_worker w idx) k v = idx_ids idx k v \<union> idx_ids w k v"
    unfolding idx_ids_merge_worker wf_index_ids_mem [OF wf] by simp
  with Cons.IH [OF rest] show ?case by auto
qed

lemma concat_slices:
  "concat (map (\<lambda>i. slice xs (i * c) ((i + 1) * c)) [0..<m]) = take (m * c) xs"
proof (induction m)
  case 0
  show ?case by simp
next
  case (Suc m)
  have "take (m * c) xs @ drop (m * c) (take (c + m * c) xs) = take (c + m * c) xs"
    by (metis append_take_drop_id le_add2 min.absorb1 take_take)
  with Suc show ?case by (simp add: slice_def)
qed

lemma ceil_div_covers:
  assumes "0 < (n::nat)"
  shows "len \<le> n * ((len + n - 1) div n)"
proof -
  have "len + n - 1 = n * ((len + n - 1) div n) + (len + n - 1) mod n" by simp
  moreover have "(len + n - 1) mod n < n" using assms by simp
  ultimately show ?thesis by linarith
qed

lemma concat_chunks_of:
  assumes "0 < n"
  shows "concat (chunks_of xs n) = xs"
proof -
  have "concat (chunks_of xs n) = take (n * ((length xs + n - 1) div n)) xs"
    unfolding chunks_of_def Let_def by (rule concat_slices)
  with ceil_div_covers [OF assms, of "length xs"] show ?thesis by simp
qed

lemma length_chunks_of: "length (chunks_of xs n) = n"
  by (simp add: chunks_of_def Let_def)

lemma idx_ids_buildIndexChunk:
  "idx_ids (buildIndexChunk dat) k v = {rid. \<exists>ob. (rid, ob) \<in> set dat \<and> (k, v) \<in> set ob}"
  by (simp add: buildIndexChunk_def idx_ids_build) (simp add: idx_ids_def idx_lookup_def)

lemma lookup_None_buildIndexChunk:
  "(idx_lookup (buildIndexChunk dat) k v = None) = (\<forall>(rid, ob) \<in> set dat. (k, v) \<notin> set ob)"
  by (simp add: buildIndexChunk_def lookup_None_build) (simp add: idx_lookup_def)

lemma key_None_buildIndexChunk:
  "(map_of (buildIndexChunk dat) k = None) = (\<forall>(rid, ob) \<in> set dat. k \<notin> fst ` set ob)"
  by (simp add: buildIndexChunk_def key_None_build)

lemma index_abs_eqI:
  assumes key: "\<And>k. (map_of a k = None) = (map_of b k = None)"
    and lookup: "\<And>k v. (idx_lookup a k v = None) = (idx_lookup b k v = None)"
    and ids: "\<And>k v. idx_ids a k v = idx_ids b k v"
  shows "index_abs a = index_abs b"
proof (rule ext)
  fix k
  show "index_abs a k = index_abs b k"
  proof (cases "map_of a k")
    case None
    with key [of k] show ?thesis by (simp add: index_abs_def)
  next
    case (Some vma)
    with key [of k] obtain vmb where b: "map_of b k = Some vmb" by auto
    have "map_option set (map_of vma v) = map_option set (map_of vmb v)" for v
      using lookup [of k v] ids [of k v] Some b
      by (auto simp: idx_lookup_def idx_ids_def split: option.splits)
    with Some b show ?thesis by (simp add: index_abs_def)
  qed
qed

lemma buildIndexes_observed:
  assumes "0 < workerPool s"
  shows "(map_of (indexes (buildIndexes s)) k = None) = (map_of (buildIndexChunk (data s)) k = None)"
    and "(idx_lookup (indexes (buildIndexes s)) k v = None)
           = (idx_lookup (buildIndexChunk (data s)) k v = None)"
    and "idx_ids (indexes (buildIndexes s)) k v = idx_ids (buildIndexChunk (data s)) k v"
proof -
  let ?cs = "chunks_of (data s) (workerPool s)"
  have cat: "set (data s) = (\<Union>c \<in> set ?cs. set c)"
    using concat_chunks_of [OF assms, of "data s"] by (metis set_concat)
  have wf: "\<forall>w \<in> set (map buildIndexChunk ?cs). wf_index w"
    by (simp add: wf_index_buildIndexChunk)
  show "(map_of (indexes (buildIndexes s)) k = None) = (map_of (buildIndexChunk (data s)) k = None)"
    by (simp add: buildIndexes_def Let_def key_None_merge_all key_None_buildIndexChunk cat)
  show "(idx_lookup (indexes (buildIndexes s)) k v = None)
           = (idx_lookup (buildIndexChunk (data s)) k v = None)"
    by (simp add: buildIndexes_def Let_def lookup_None_merge_all [OF wf]
        lookup_None_buildIndexChunk cat) (simp add: idx_lookup_def)
  show "idx_ids (indexes (buildIndexes s)) k v = idx_ids (buildIndexChunk (data s)) k v"
    by (simp add: buildIndexes_def Let_def idx_ids_merge_all [OF wf] idx_ids_buildIndexChunk cat)
       (auto simp: idx_ids_def idx_lookup_def)
qed

lemma set_triples:
  "set (triples dat) = {(k, v, rid). \<exists>ob. (rid, ob) \<in> set dat \<and> (k, v) \<in> set ob}"
proof -
  have "((k, v, rid) \<in> set (triples dat)) = (\<exists>ob. (rid, ob) \<in> set dat \<and> (k, v) \<in> set ob)"
    for k v rid
    by (induction dat) (auto simp: triples_def)
  then show ?thesis by auto
qed

lemma index_abs_triplesI:
  assumes key: "\<And>k. (map_of a k = None) = (\<forall>(k', v, rid) \<in> set ts. k' \<noteq> k)"
    and lookup: "\<And>k v. (idx_lookup a k v = None) = (\<forall>(k', v', rid) \<in> set ts. \<not> (k' = k \<and> v' = v))"
    and ids: "\<And>k v. idx_ids a k v = {rid. (k, v, rid) \<in> set ts}"
  shows "index_abs a = index_of_triples ts"
proof (rule ext)
  fix k
  show "index_abs a k = index_of_triples ts k"
  proof (cases "map_of a k")
    case None
    with key [of k] have "\<not> list_ex (\<lambda>(k', v, rid). k' = k) ts"
      by (auto simp: list_ex_iff)
    with None show ?thesis by (simp add: index_abs_def index_of_triples_def)
  next
    case (Some vm)
    with key [of k] have ex: "list_ex (\<lambda>(k', v, rid). k' = k) ts"
      by (auto simp: list_ex_iff)
    have "map_option set (map_of vm v)
        = (if list_ex (\<lambda>(k', v', rid). k' = k \<and> v' = v) ts
           then Some (set (map (\<lambda>(k, v, rid). rid)
                             (filter (\<lambda>(k', v', rid). k' = k \<and> v' = v) ts)))
           else None)" for v
    proof (cases "map_of vm v")
      case None
      with Some have "idx_lookup a k v = None" by (simp add: idx_lookup_def)
      with lookup [of k v] have "\<not> list_ex (\<lambda>(k', v', rid). k' = k \<and> v' = v) ts"
        by (auto simp: list_ex_iff)
      with None show ?thesis by simp
    next
      case (Some ids')
      with \<open>map_of a k = Some vm\<close> have l: "idx_lookup a k v = Some ids'"
        by (simp add: idx_lookup_def)
      with lookup [of k v] have ex2: "list_ex (\<lambda>(k', v', rid). k' = k \<and> v' = v) ts"
        by (auto simp: list_ex_iff)
      from l ids [of k v] have "set ids' = {rid. (k, v, rid) \<in> set ts}"
        by (simp add: idx_ids_def)
      also have "\<dots> = set (map (\<lambda>(k, v, rid). rid)
                             (filter (\<lambda>(k', v', rid). k' = k \<and> v' = v) ts))"
        by force
      finally show ?thesis using Some ex2 by simp
    qed
    with Some ex show ?thesis by (simp add: index_abs_def index_of_triples_def)
  qed
qed

lemma index_abs_buildIndexChunk:
  "index_abs (buildIndexChunk dat) = index_of_triples (triples dat)"
proof (rule index_abs_triplesI)
  fix k v
  show "(map_of (buildIndexChunk dat) k = None) = (\<forall>(k', v, rid) \<in> set (triples dat). k' \<noteq> k)"
    unfolding key_None_buildIndexChunk set_triples by force
  show "(idx_lookup (buildIndexChunk dat) k v = None)
          = (\<forall>(k', v', rid) \<in> set (triples dat). \<not> (k' = k \<and> v' = v))"
    unfolding lookup_None_buildIndexChunk set_triples by force
  show "idx_ids (buildIndexChunk dat) k v = {rid. (k, v, rid) \<in> set (triples dat)}"
    unfolding idx_ids_buildIndexChunk set_triples by simp
qed

text \<open>
  C8. A new database gets \<open>max(1, floor(cpus / 2))\<close> workers. With any positive number
  \<open>n\<close> of workers, \<open>buildIndexes\<close> cuts the entries into \<open>n\<close> contiguous chunks that
  together are the whole sequence, and the index it merges from the workers' indexes
  is the index that holds exactly the (field, value, id) triples of all records: the
  fields of the triples, under each field the values of the triples with that field,
  under each field and value the ids of the triples with both. One \<open>buildIndexChunk\<close>
  pass over all entries gives that same index.
\<close>

theorem parallel_build_equals_sequential:
  "workerPool (initWorkers (new_Database sch opts now) e) = max 1 (os_cpus e div 2)
   \<and> index_abs (buildIndexChunk (data s)) = index_of_triples (triples (data s))
   \<and> (0 < workerPool s \<longrightarrow>
        length (chunks_of (data s) (workerPool s)) = workerPool s
        \<and> concat (chunks_of (data s) (workerPool s)) = data s
        \<and> index_abs (indexes (buildIndexes s)) = index_of_triples (triples (data s))
        \<and> idx_ids (indexes (buildIndexes s)) key val
            = {rid. \<exists>ob. (rid, ob) \<in> set (data s) \<and> (key, val) \<in> set ob}
        \<and> index_abs (indexes (buildIndexes s)) = index_abs (buildIndexChunk (data s)))"
proof -
  have eq: "index_abs (indexes (buildIndexes s)) = index_abs (buildIndexChunk (data s))"
    if "0 < workerPool s"
    by (rule index_abs_eqI) (simp_all add: buildIndexes_observed [OF that])
  have ids: "idx_ids (indexes (buildIndexes s)) key val
      = {rid. \<exists>ob. (rid, ob) \<in> set (data s) \<and> (key, val) \<in> set ob}"
    if "0 < workerPool s"
    by (simp add: buildIndexes_observed [OF that] idx_ids_buildIndexChunk)
  from eq ids show ?thesis
    by (simp add: initWorkers_def new_Database_def concat_chunks_of length_chunks_of
        index_abs_buildIndexChunk)
qed

theorem parallel_build_equals_sequential_witness:
  "0 < workerPool (sample_db\<lparr>data := three_records\<rparr>)
   \<and> chunks_of three_records 2 = [take 2 three_records, drop 2 three_records]
   \<and> index_abs (indexes (buildIndexes (sample_db\<lparr>data := three_records\<rparr>)))
       = index_of_triples (triples three_records)
   \<and> triples three_records
       = [(''id'', JStr ''a'', JStr ''a''), (''age'', JNum 25, JStr ''a''),
          (''id'', JStr ''b'', JStr ''b''), (''age'', JNum 25, JStr ''b''),
          (''id'', JStr ''c'', JStr ''c''), (''age'', JNum 31, JStr ''c'')]
   \<and> idx_ids (indexes (buildIndexes (sample_db\<lparr>data := three_records\<rparr>))) ''age'' (JNum 25)
       = {JStr ''a'', JStr ''b''}
   \<and> index_abs (indexes (buildIndexes (sample_db\<lparr>data := three_records\<rparr>)))
       = index_abs (buildIndexChunk three_records)
   \<and> buildIndexChunk three_records
       = [(''id'', [(JStr ''a'', [JStr ''a'']), (JStr ''b'', [JStr ''b'']), (JStr ''c'', [JStr ''c''])]),
          (''age'', [(JNum 25, [JStr ''a'', JStr ''b'']), (JNum 31, [JStr ''c''])])]"
proof -
  have w: "0 < workerPool (sample_db\<lparr>data := three_records\<rparr>)"
    by (simp add: sample_db_def)
  have c: "chunks_of three_records 2 = [take 2 three_records, drop 2 three_records]"
    by (simp add: chunks_of_def slice_def three_records_def upt_rec [of 0] upt_rec [of "Suc 0"])
  have b: "buildIndexChunk three_records
       = [(''id'', [(JStr ''a'', [JStr ''a'']), (JStr ''b'', [JStr ''b'']), (JStr ''c'', [JStr ''c''])]),
          (''age'', [(JNum 25, [JStr ''a'', JStr ''b'']), (JNum 31, [JStr ''c''])])]"
    by code_simp
  have t: "triples three_records
       = [(''id'', JStr ''a'', JStr ''a''), (''age'', JNum 25, JStr ''a''),
          (''id'', JStr ''b'', JStr ''b''), (''age'', JNum 25, JStr ''b''),
          (''id'', JStr ''c'', JStr ''c''), (''age'', JNum 31, JStr ''c'')]"
    by (simp add: triples_def three_records_def)
  have m: "{rid. \<exists>ob. (rid, ob) \<in> set three_records \<and> (''age'', JNum 25) \<in> set ob}
       = {JStr ''a'', JStr ''b''}"
    by (auto simp: three_records_def)
  from parallel_build_equals_sequential [where sch = "''db''" and opts = sample_options
      and now = 0 and e = sample_env and s = "sample_db\<lparr>data := three_records\<rparr>"
      and key = "''age''" and val = "JNum 25"] w c b t m
  show ?thesis by simp
qed

section \<open>What every operation keeps\<close>

lemma distinct_Map_of_items:
  "distinct (map fst acc) \<Longrightarrow>
   distinct (map fst (fold (\<lambda>item. AList.update (obj_get item ''id'') item) items acc))"
  by (induction items arbitrary: acc) (simp_all add: AList.distinct_update)

lemma store_inv_buildIndexes:
  assumes "0 < workerPool s" and "distinct (map fst (data s))"
  shows "store_inv (buildIndexes s)"
proof -
  have d: "data (buildIndexes s) = data s" by (simp add: buildIndexes_def Let_def)
  have "index_complete (buildIndexes s)"
    unfolding index_complete_def d
  proof (intro allI impI)
    fix rid ob k v
    assume "map_of (data s) rid = Some ob" and "map_of ob k = Some v"
    then have "(rid, ob) \<in> set (data s)" and "(k, v) \<in> set ob"
      by (auto dest: map_of_SomeD)
    then have "rid \<in> {rid. \<exists>ob. (rid, ob) \<in> set (data s) \<and> (k, v) \<in> set ob}"
      by blast
    then show "rid \<in> idx_ids (indexes (buildIndexes s)) k v"
      by (simp only: buildIndexes_observed(3) [OF assms(1)] idx_ids_buildIndexChunk)
  qed
  with assms(2) show ?thesis by (simp add: store_inv_def d)
qed

lemma store_inv_load_catch:
  "store_inv s \<Longrightarrow> store_inv (state_of (load_catch s err calls))"
  by (simp add: load_catch_def state_of_def store_inv_def index_complete_def)

lemma store_inv_load:
  assumes "0 < workerPool s" and "store_inv s"
  shows "store_inv (state_of (load s e))"
proof (cases "fs_readFile e")
  case (Inl err)
  then show ?thesis
    using store_inv_load_catch [OF assms(2)] by (simp add: load_def)
next
  case content: (Inr content)
  show ?thesis
  proof (cases "msgpack_decode e content")
    case (Inl msg)
    with content show ?thesis
      using store_inv_load_catch [OF assms(2)] by (simp add: load_def)
  next
    case (Inr items)
    have "store_inv (buildIndexes
        (s\<lparr>data := fold (\<lambda>item. AList.update (obj_get item ''id'') item) items []\<rparr>))"
      by (rule store_inv_buildIndexes) (simp_all add: assms(1) distinct_Map_of_items)
    with content Inr show ?thesis by (simp add: load_def state_of_def)
  qed
qed

lemma store_inv_init:
  assumes "store_inv s"
  shows "store_inv (state_of (init s e))"
proof (cases "isInitialized s")
  case True
  with assms show ?thesis by (simp add: init_initialized state_of_def)
next
  case False
  have "0 < workerPool (initWorkers s e)" by (simp add: initWorkers_def max_def)
  moreover have "store_inv (initWorkers s e)"
    using assms by (simp add: store_inv_def index_complete_def initWorkers_def)
  ultimately have l: "store_inv (state_of (load (initWorkers s e) e))" by (rule store_inv_load)
  obtain r s1 c where ld: "load (initWorkers s e) e = (r, s1, c)"
    by (cases "load (initWorkers s e) e")
  from l ld have s1: "store_inv s1" by (simp add: state_of_def)
  then have s1': "store_inv (s1\<lparr>isInitialized := True\<rparr>)"
    by (simp add: store_inv_def index_complete_def)
  show ?thesis
  proof (cases r)
    case (Inl err)
    with False ld s1 show ?thesis by (simp add: init_def state_of_def)
  next
    case (Inr u)
    with False ld s1' show ?thesis by (simp add: init_def state_of_def)
  qed
qed

lemma index_complete_put:
  assumes "index_complete s"
    and d: "map_of dat = (map_of (data s))(rid \<mapsto> new)"
    and i: "\<And>k v. idx_ids idx k v
              = (idx_ids (indexes s) k v - R k v) \<union> (if (k, v) \<in> set new then {rid} else {})"
    and r: "\<And>k v. R k v \<subseteq> {rid}"
  shows "index_complete (s\<lparr>data := dat, dirty := True, indexes := idx\<rparr>)"
  unfolding index_complete_def
proof (intro allI impI)
  fix rid' ob k v
  assume a: "map_of (data (s\<lparr>data := dat, dirty := True, indexes := idx\<rparr>)) rid' = Some ob"
    and b: "map_of ob k = Some v"
  show "rid' \<in> idx_ids (indexes (s\<lparr>data := dat, dirty := True, indexes := idx\<rparr>)) k v"
  proof (cases "rid' = rid")
    case True
    with a d have "ob = new" by simp
    with b have "(k, v) \<in> set new" by (auto dest: map_of_SomeD)
    with True show ?thesis by (simp add: i)
  next
    case False
    with a d have "map_of (data s) rid' = Some ob" by simp
    with assms(1) b have "rid' \<in> idx_ids (indexes s) k v"
      unfolding index_complete_def by blast
    moreover have "rid' \<notin> R k v" using r [of k v] False by auto
    ultimately show ?thesis by (simp add: i)
  qed
qed

lemma store_inv_create_store:
  assumes "store_inv s"
  shows "store_inv (snd (create_store s e ob))"
proof -
  define rid where "rid = (if truthy (obj_get ob ''id'') then obj_get ob ''id'' else JStr (uuidv4 e))"
  define ob1 where "ob1 = AList.update ''id'' rid ob"
  have eq: "snd (create_store s e ob)
      = s\<lparr>data := AList.update rid ob1 (data s), dirty := True,
           indexes := fold (index_add rid) ob1 (indexes s)\<rparr>"
    by (simp add: create_store_def Let_def rid_def ob1_def)
  have c: "index_complete (s\<lparr>data := AList.update rid ob1 (data s), dirty := True,
           indexes := fold (index_add rid) ob1 (indexes s)\<rparr>)"
    using assms
    by (intro index_complete_put [where R = "\<lambda>k v. {}" and rid = rid and new = ob1])
       (simp_all add: store_inv_def AList.update_conv' idx_ids_fold_add)
  have "distinct (map fst (AList.update rid ob1 (data s)))"
    using assms by (simp add: store_inv_def AList.distinct_update)
  with c show ?thesis unfolding eq by (simp add: store_inv_def)
qed

lemma store_inv_save: "store_inv s \<Longrightarrow> store_inv (state_of (save s e))"
  by (auto simp: store_inv_def index_complete_def save_def state_of_def Let_def
      split: sum.splits option.splits)

lemma store_inv_create_body: "store_inv s \<Longrightarrow> store_inv (state_of (create_body s e ob))"
  using store_inv_create_store [of s e ob]
  by (simp add: state_of_create_body) (simp add: store_inv_def index_complete_def)

lemma store_inv_update_body:
  assumes "store_inv s"
  shows "store_inv (state_of (update_body s rid updates))"
proof (cases "map_of (data s) rid")
  case None
  with assms show ?thesis by (simp add: update_body_def state_of_def)
next
  case (Some existingObj)
  have c: "index_complete (s\<lparr>data := AList.update rid (spread existingObj updates) (data s),
      dirty := True,
      indexes := fold (index_add rid) (spread existingObj updates)
                   (fold (index_remove rid) existingObj (indexes s))\<rparr>)"
    using assms
    by (intro index_complete_put
          [where R = "\<lambda>k v. if (k, v) \<in> set existingObj then {rid} else {}"
             and rid = rid and new = "spread existingObj updates"])
       (simp_all add: store_inv_def AList.update_conv' idx_ids_fold_add idx_ids_fold_remove)
  have "distinct (map fst (AList.update rid (spread existingObj updates) (data s)))"
    using assms by (simp add: store_inv_def AList.distinct_update)
  with c Some show ?thesis by (simp add: update_body_def state_of_def Let_def store_inv_def)
qed

lemma store_inv_delete_body:
  assumes "store_inv s"
  shows "store_inv (state_of (delete_body s rid))"
proof (cases "map_of (data s) rid")
  case None
  with assms show ?thesis by (simp add: delete_body_def state_of_def)
next
  case (Some ob)
  have c: "index_complete (s\<lparr>indexes := fold (index_remove rid) ob (indexes s),
           data := AList.delete rid (data s), dirty := True\<rparr>)"
    unfolding index_complete_def
  proof (intro allI impI)
    fix rid' ob' k v
    assume a: "map_of (data (s\<lparr>indexes := fold (index_remove rid) ob (indexes s),
           data := AList.delete rid (data s), dirty := True\<rparr>)) rid' = Some ob'"
      and b: "map_of ob' k = Some v"
    from a have ne: "rid' \<noteq> rid" by (auto simp: AList.delete_conv')
    with a have "map_of (data s) rid' = Some ob'" by (simp add: AList.delete_conv')
    with assms b have "rid' \<in> idx_ids (indexes s) k v"
      unfolding store_inv_def index_complete_def by blast
    with ne show "rid' \<in> idx_ids (indexes (s\<lparr>indexes := fold (index_remove rid) ob (indexes s),
           data := AList.delete rid (data s), dirty := True\<rparr>)) k v"
      by (simp add: idx_ids_fold_remove)
  qed
  have "distinct (map fst (AList.delete rid (data s)))"
    using assms by (simp add: store_inv_def AList.distinct_delete)
  with c Some show ?thesis by (simp add: delete_body_def state_of_def store_inv_def)
qed

lemma store_inv_findByQuery_body:
  "store_inv s \<Longrightarrow> store_inv (state_of (findByQuery_body s e query))"
  by (auto simp: findByQuery_body_def store_inv_def index_complete_def state_of_def Let_def
      split: option.splits)

lemma store_inv_findByKey_body:
  "store_inv s \<Longrightarrow> store_inv (state_of (findByKey_body s e key val))"
  by (auto simp: findByKey_body_def store_inv_def index_complete_def state_of_def Let_def
      split: option.splits)

lemma store_inv_create: "store_inv s \<Longrightarrow> store_inv (state_of (create s e ob))"
  unfolding create_def
  by (rule after_init_preserves [where P = store_inv])
     (simp_all add: store_inv_init store_inv_create_body)

lemma store_inv_update: "store_inv s \<Longrightarrow> store_inv (state_of (update s e rid updates))"
  unfolding update_def
  by (rule after_init_preserves [where P = store_inv])
     (simp_all add: store_inv_init store_inv_update_body)

lemma store_inv_delete: "store_inv s \<Longrightarrow> store_inv (state_of (delete s e rid))"
  unfolding delete_def
  by (rule after_init_preserves [where P = store_inv])
     (simp_all add: store_inv_init store_inv_delete_body)

lemma store_inv_findByQuery: "store_inv s \<Longrightarrow> store_inv (state_of (findByQuery s e query))"
  unfolding findByQuery_def
  by (rule after_init_preserves [where P = store_inv])
     (simp_all add: store_inv_init store_inv_findByQuery_body)

lemma store_inv_findByKey: "store_inv s \<Longrightarrow> store_inv (state_of (findByKey s e key val))"
  unfolding findByKey_def
  by (rule after_init_preserves [where P = store_inv])
     (simp_all add: store_inv_init store_inv_findByKey_body)

lemma store_inv_new: "store_inv (new_Database sch opts now)"
  by (simp add: store_inv_def index_complete_def new_Database_def)

text \<open>Every state the public operations reach has each key once and a complete index.\<close>

lemma reachable_store_inv: "reachable s \<Longrightarrow> store_inv s"
  by (induction rule: reachable.induct)
     (simp_all add: store_inv_new store_inv_init store_inv_save store_inv_create
        store_inv_update store_inv_delete store_inv_findByQuery store_inv_findByKey)

section \<open>The sample runs, evaluated\<close>

lemma index_add_eval:
  "index_add rid (key, val) idx =
     AList.update key
       (AList.update val
          (Set_add rid (case idx_lookup idx key val of None \<Rightarrow> [] | Some s \<Rightarrow> s))
          (case map_of idx key of None \<Rightarrow> [] | Some m \<Rightarrow> m))
       idx"
  by (auto simp: index_add_def idx_lookup_def Let_def AList.update_conv' split: option.splits)

lemma create_initialized: "isInitialized s \<Longrightarrow> create s e ob = create_body s e ob"
  by (simp add: create_def after_init_initialized)

lemma findByQuery_initialized:
  "isInitialized s \<Longrightarrow> findByQuery s e query = findByQuery_body s e query"
  by (simp add: findByQuery_def after_init_initialized)

lemmas store_evals =
  create_store_def obj_get_def Let_def index_add_eval idx_lookup_def Set_add_def

lemmas query_evals =
  query_by_index_def filter_candidates_def smallest_step_def matches_def strict_eq_def
  obj_get_def idx_lookup_def List.map_filter_def Let_def

lemma after_first_create_eq:
  "after_first_create =
     \<lparr>schema = ''db'',
      data = [(JStr ''u-1'', [(''name'', JStr ''A''), (''age'', JNum 25), (''id'', JStr ''u-1'')])],
      indexes = [(''name'', [(JStr ''A'', [JStr ''u-1''])]), (''age'', [(JNum 25, [JStr ''u-1''])]),
                 (''id'', [(JStr ''u-1'', [JStr ''u-1''])])],
      cache = [], batchSize = 2, saveInterval = 5000, lastSave = 0, isInitialized = True,
      workerPool = 2, dirty = True\<rparr>"
proof -
  have i: "isInitialized empty_db" by (simp add: empty_db_def)
  have cs: "create_store empty_db sample_env [(''name'', JStr ''A''), (''age'', JNum 25)] =
    ([(''name'', JStr ''A''), (''age'', JNum 25), (''id'', JStr ''u-1'')],
     \<lparr>schema = ''db'',
      data = [(JStr ''u-1'', [(''name'', JStr ''A''), (''age'', JNum 25), (''id'', JStr ''u-1'')])],
      indexes = [(''name'', [(JStr ''A'', [JStr ''u-1''])]), (''age'', [(JNum 25, [JStr ''u-1''])]),
                 (''id'', [(JStr ''u-1'', [JStr ''u-1''])])],
      cache = [], batchSize = 2, saveInterval = 5000, lastSave = 0, isInitialized = True,
      workerPool = 2, dirty = True\<rparr>)"
    by (simp add: store_evals empty_db_def sample_env_def)
  show ?thesis
    unfolding after_first_create_def create_initialized [OF i] create_body_def cs
    by (simp add: batch_full_def state_of_def)
qed

lemma first_query_eq:
  "findByQuery after_first_create sample_env query_age =
     (Inr [[(''name'', JStr ''A''), (''age'', JNum 25), (''id'', JStr ''u-1'')]],
      after_first_create
        \<lparr>cache := [(''query:age'', [[(''name'', JStr ''A''), (''age'', JNum 25), (''id'', JStr ''u-1'')]])]\<rparr>,
      [])"
proof -
  have i: "isInitialized after_first_create" by (simp add: after_first_create_eq)
  have q: "query_by_index after_first_create query_age
             = Some [[(''name'', JStr ''A''), (''age'', JNum 25), (''id'', JStr ''u-1'')]]"
    by (simp add: after_first_create_eq query_age_def query_evals)
  show ?thesis
    unfolding findByQuery_initialized [OF i] findByQuery_body_def Let_def q
    by (simp add: after_first_create_eq sample_env_def query_age_def)
qed

lemma after_second_create_eq:
  "after_second_create =
     \<lparr>schema = ''db'',
      data = [(JStr ''u-1'', [(''name'', JStr ''A''), (''age'', JNum 25), (''id'', JStr ''u-1'')]),
              (JStr ''u-2'', [(''name'', JStr ''B''), (''age'', JNum 25), (''id'', JStr ''u-2'')])],
      indexes = [(''name'', [(JStr ''A'', [JStr ''u-1'']), (JStr ''B'', [JStr ''u-2''])]),
                 (''age'', [(JNum 25, [JStr ''u-1'', JStr ''u-2''])]),
                 (''id'', [(JStr ''u-1'', [JStr ''u-1'']), (JStr ''u-2'', [JStr ''u-2''])])],
      cache = [(''query:age'', [[(''name'', JStr ''A''), (''age'', JNum 25), (''id'', JStr ''u-1'')]])],
      batchSize = 2, saveInterval = 5000, lastSave = 7, isInitialized = True,
      workerPool = 2, dirty = False\<rparr>"
proof -
  have aq: "after_query = after_first_create
        \<lparr>cache := [(''query:age'', [[(''name'', JStr ''A''), (''age'', JNum 25), (''id'', JStr ''u-1'')]])]\<rparr>"
    by (simp add: after_query_def first_query_eq state_of_def)
  have i: "isInitialized after_query" by (simp add: aq after_first_create_eq)
  have cs: "create_store after_query (sample_env\<lparr>uuidv4 := ''u-2''\<rparr>)
        [(''name'', JStr ''B''), (''age'', JNum 25)] =
    ([(''name'', JStr ''B''), (''age'', JNum 25), (''id'', JStr ''u-2'')],
     \<lparr>schema = ''db'',
      data = [(JStr ''u-1'', [(''name'', JStr ''A''), (''age'', JNum 25), (''id'', JStr ''u-1'')]),
              (JStr ''u-2'', [(''name'', JStr ''B''), (''age'', JNum 25), (''id'', JStr ''u-2'')])],
      indexes = [(''name'', [(JStr ''A'', [JStr ''u-1'']), (JStr ''B'', [JStr ''u-2''])]),
                 (''age'', [(JNum 25, [JStr ''u-1'', JStr ''u-2''])]),
                 (''id'', [(JStr ''u-1'', [JStr ''u-1'']), (JStr ''u-2'', [JStr ''u-2''])])],
      cache = [(''query:age'', [[(''name'', JStr ''A''), (''age'', JNum 25), (''id'', JStr ''u-1'')]])],
      batchSize = 2, saveInterval = 5000, lastSave = 0, isInitialized = True,
      workerPool = 2, dirty = True\<rparr>)"
    by (simp add: store_evals aq after_first_create_eq sample_env_def)
  show ?thesis
    unfolding after_second_create_def create_initialized [OF i] create_body_def cs
    by (simp add: batch_full_def save_def state_of_def sample_env_def Let_def)
qed

lemma created_once_eq:
  "created_once =
     \<lparr>schema = ''db'',
      data = [(JStr ''a'', [(''id'', JStr ''a''), (''name'', JStr ''X'')])],
      indexes = [(''id'', [(JStr ''a'', [JStr ''a''])]), (''name'', [(JStr ''X'', [JStr ''a''])])],
      cache = [], batchSize = 2, saveInterval = 5000, lastSave = 0, isInitialized = True,
      workerPool = 2, dirty = True\<rparr>"
proof -
  have i: "isInitialized empty_db" by (simp add: empty_db_def)
  have cs: "create_store empty_db sample_env [(''id'', JStr ''a''), (''name'', JStr ''X'')] =
    ([(''id'', JStr ''a''), (''name'', JStr ''X'')],
     \<lparr>schema = ''db'',
      data = [(JStr ''a'', [(''id'', JStr ''a''), (''name'', JStr ''X'')])],
      indexes = [(''id'', [(JStr ''a'', [JStr ''a''])]), (''name'', [(JStr ''X'', [JStr ''a''])])],
      cache = [], batchSize = 2, saveInterval = 5000, lastSave = 0, isInitialized = True,
      workerPool = 2, dirty = True\<rparr>)"
    by (simp add: store_evals empty_db_def sample_env_def)
  show ?thesis
    unfolding created_once_def create_initialized [OF i] create_body_def cs
    by (simp add: batch_full_def state_of_def)
qed

lemma created_twice_eq:
  "created_twice =
     \<lparr>schema = ''db'',
      data = [(JStr ''a'', [(''id'', JStr ''a''), (''name'', JStr ''Y'')])],
      indexes = [(''id'', [(JStr ''a'', [JStr ''a''])]),
                 (''name'', [(JStr ''X'', [JStr ''a'']), (JStr ''Y'', [JStr ''a''])])],
      cache = [], batchSize = 2, saveInterval = 5000, lastSave = 0, isInitialized = True,
      workerPool = 2, dirty = True\<rparr>"
proof -
  have i: "isInitialized created_once" by (simp add: created_once_eq)
  have cs: "create_store created_once sample_env [(''id'', JStr ''a''), (''name'', JStr ''Y'')] =
    ([(''id'', JStr ''a''), (''name'', JStr ''Y'')],
     \<lparr>schema = ''db'',
      data = [(JStr ''a'', [(''id'', JStr ''a''), (''name'', JStr ''Y'')])],
      indexes = [(''id'', [(JStr ''a'', [JStr ''a''])]),
                 (''name'', [(JStr ''X'', [JStr ''a'']), (JStr ''Y'', [JStr ''a''])])],
      cache = [], batchSize = 2, saveInterval = 5000, lastSave = 0, isInitialized = True,
      workerPool = 2, dirty = True\<rparr>)"
    by (simp add: store_evals created_once_eq sample_env_def)
  show ?thesis
    unfolding created_twice_def create_initialized [OF i] create_body_def cs
    by (simp add: batch_full_def state_of_def)
qed

lemma empty_db_from_new:
  "state_of (init (new_Database ''db'' sample_options 0) sample_env) = empty_db"
  by (simp add: init_def load_def load_catch_def initWorkers_def new_Database_def state_of_def
      or_default_def sample_options_def sample_env_def empty_db_def Let_def)

lemma reachable_empty_db: "reachable empty_db"
  using reach_init [OF reach_new, of "''db''" sample_options 0 sample_env]
  by (simp add: empty_db_from_new)

lemma reachable_sample_db: "reachable sample_db"
proof -
  let ?rec = "[(''id'', JStr ''a''), (''name'', JStr ''X''), (''age'', JNum 30)]"
  let ?s1 = "empty_db\<lparr>data := [(JStr ''a'', ?rec)], dirty := True,
      indexes := [(''id'', [(JStr ''a'', [JStr ''a''])]), (''name'', [(JStr ''X'', [JStr ''a''])]),
                  (''age'', [(JNum 30, [JStr ''a''])])]\<rparr>"
  let ?s2 = "?s1\<lparr>dirty := False, lastSave := 7\<rparr>"
  have i: "isInitialized empty_db" "isInitialized ?s2" by (simp_all add: empty_db_def)
  have cs: "create_store empty_db sample_env ?rec = (?rec, ?s1)"
    by (simp add: store_evals empty_db_def sample_env_def)
  have "state_of (create empty_db sample_env ?rec) = ?s1"
    unfolding create_initialized [OF i(1)] create_body_def cs
    by (simp add: batch_full_def state_of_def empty_db_def)
  with reach_create [OF reachable_empty_db, of sample_env ?rec] have r1: "reachable ?s1" by simp
  have "state_of (save ?s1 sample_env) = ?s2"
    by (simp add: save_def Let_def state_of_def sample_env_def)
  with reach_save [OF r1, of sample_env] have r2: "reachable ?s2" by simp
  have q: "query_by_index ?s2 [(''age'', JNum 30)] = Some [?rec]"
    by (simp add: empty_db_def query_evals)
  have "state_of (findByQuery ?s2 sample_env [(''age'', JNum 30)]) = sample_db"
    unfolding findByQuery_initialized [OF i(2)] findByQuery_body_def Let_def q
    by (simp add: state_of_def sample_env_def sample_db_def empty_db_def)
  with reach_findByQuery [OF r2, of sample_env "[(''age'', JNum 30)]"] show ?thesis by simp
qed

lemma reachable_after_first_create: "reachable after_first_create"
  unfolding after_first_create_def by (rule reach_create [OF reachable_empty_db])

lemma reachable_after_second_create: "reachable after_second_create"
  unfolding after_second_create_def after_query_def
  by (intro reach_create reach_findByQuery reachable_after_first_create)

lemma store_inv_after_first_create: "store_inv after_first_create"
  by (rule reachable_store_inv [OF reachable_after_first_create])

lemma store_inv_after_second_create: "store_inv after_second_create"
  by (rule reachable_store_inv [OF reachable_after_second_create])

section \<open>Queries\<close>

lemma matches_iff:
  "matches q keys ob = (\<forall>key \<in> set keys. strict_eq (obj_get ob key) (obj_get q key))"
  by (simp add: matches_def list_all_iff)

lemma set_map_filter: "set (List.map_filter f xs) = {y. \<exists>x \<in> set xs. f x = Some y}"
  by (induction xs) (auto split: option.splits)

lemma filter_candidates_sound: "set (filter_candidates s q ids) \<subseteq> selected s q"
  unfolding filter_candidates_def selected_def
  by (auto simp: set_map_filter matches_iff split: option.splits if_splits)

lemma defined_field:
  assumes "strict_eq (obj_get ob key) val" and "val \<noteq> JUndefined"
  shows "map_of ob key = Some val"
  using assms by (auto simp: strict_eq_def obj_get_def split: option.splits)

text \<open>A selected record is stored under an id that every predicate field indexes.\<close>

lemma selected_indexed:
  assumes c: "index_complete s" and df: "defined_query q" and sel: "ob \<in> selected s q"
  shows "\<exists>rid. map_of (data s) rid = Some ob
           \<and> (\<forall>key \<in> set (map fst q). rid \<in> idx_ids (indexes s) key (obj_get q key))"
proof -
  from sel obtain rid where st: "map_of (data s) rid = Some ob"
    and m: "\<forall>key \<in> set (map fst q). strict_eq (obj_get ob key) (obj_get q key)"
    unfolding selected_def by blast
  have "rid \<in> idx_ids (indexes s) key (obj_get q key)" if "key \<in> set (map fst q)" for key
  proof -
    from that m have "strict_eq (obj_get ob key) (obj_get q key)" by blast
    moreover from that df have "obj_get q key \<noteq> JUndefined"
      unfolding defined_query_def by blast
    ultimately have "map_of ob key = Some (obj_get q key)" by (rule defined_field)
    with c st show ?thesis unfolding index_complete_def by blast
  qed
  with st show ?thesis by blast
qed

lemma filter_candidates_complete:
  assumes c: "index_complete s" and df: "defined_query q"
    and key: "key \<in> set (map fst q)"
    and lk: "idx_lookup (indexes s) key (obj_get q key) = Some ids"
  shows "selected s q \<subseteq> set (filter_candidates s q ids)"
proof
  fix ob
  assume sel: "ob \<in> selected s q"
  from selected_indexed [OF c df sel] key obtain rid where st: "map_of (data s) rid = Some ob"
    and "rid \<in> idx_ids (indexes s) key (obj_get q key)" by blast
  with lk have rS: "rid \<in> set ids" by (simp add: idx_ids_def)
  from sel have "matches q (map fst q) ob" by (simp add: selected_def matches_iff)
  with st have "(case map_of (data s) rid of
               None \<Rightarrow> None
             | Some ob \<Rightarrow> if matches q (map fst q) ob then Some ob else None) = Some ob"
    by simp
  with rS show "ob \<in> set (filter_candidates s q ids)"
    unfolding filter_candidates_def set_map_filter by blast
qed

lemma filter_candidates_selected:
  assumes "index_complete s" and "defined_query q" and "key \<in> set (map fst q)"
    and "idx_lookup (indexes s) key (obj_get q key) = Some ids"
  shows "set (filter_candidates s q ids) = selected s q"
  using filter_candidates_sound [of s q ids] filter_candidates_complete [OF assms] by blast

lemma query_by_index_driving:
  assumes "query_by_index s q = Some results"
  shows "\<exists>key \<in> set (map fst q). \<exists>ids.
           idx_lookup (indexes s) key (obj_get q key) = Some ids
           \<and> results = filter_candidates s q ids"
proof -
  from assms obtain S k where f: "fold (smallest_step (indexes s) q) (map fst q) None = Some (S, k)"
    and res: "results = filter_candidates s q S"
    by (auto simp: query_by_index_def Let_def split: if_splits option.splits prod.splits)
  from smallest_fold_Some [OF f] res show ?thesis by auto
qed

lemma query_by_index_None:
  assumes c: "index_complete s" and ne: "q \<noteq> []" and df: "defined_query q"
    and none: "query_by_index s q = None"
  shows "selected s q = {}"
proof (rule ccontr)
  assume "selected s q \<noteq> {}"
  then obtain ob where sel: "ob \<in> selected s q" by blast
  from selected_indexed [OF c df sel] obtain rid where
    mem: "\<forall>key \<in> set (map fst q). rid \<in> idx_ids (indexes s) key (obj_get q key)" by blast
  from ne obtain key0 where k0: "key0 \<in> set (map fst q)" by (cases q) auto
  from none ne have "fold (smallest_step (indexes s) q) (map fst q) None = None"
    by (auto simp: query_by_index_def Let_def split: option.splits prod.splits)
  with k0 have "idx_lookup (indexes s) key0 (obj_get q key0) = None"
    unfolding smallest_fold_None by blast
  then have "idx_ids (indexes s) key0 (obj_get q key0) = {}" by (simp add: idx_ids_def)
  with mem k0 show False by auto
qed

lemma query_result_selected:
  assumes "index_complete s" and "q \<noteq> []" and "defined_query q"
  shows "set (query_result s q) = selected s q"
proof (cases "query_by_index s q")
  case None
  with query_by_index_None [OF assms None] show ?thesis by (simp add: query_result_def)
next
  case (Some results)
  from query_by_index_driving [OF Some] obtain key ids where
    "key \<in> set (map fst q)" and "idx_lookup (indexes s) key (obj_get q key) = Some ids"
    and "results = filter_candidates s q ids" by blast
  with filter_candidates_selected [OF assms(1,3)] Some show ?thesis
    by (simp add: query_result_def)
qed

lemma naive_query_selected:
  assumes "distinct (map fst (data s))"
  shows "set (naive_query s q) = selected s q"
proof -
  have "(ob \<in> snd ` set (data s)) = (\<exists>rid. map_of (data s) rid = Some ob)" for ob
    using assms by (force simp: map_of_eq_Some_iff)
  then show ?thesis
    by (auto simp: naive_query_def selected_def matches_iff)
qed

lemma query_result_empty: "query_result s [] = []"
  by (simp add: query_result_def query_by_index_def)

lemma findByQuery_body_miss:
  assumes "map_of (cache s) (''query:'' @ JSON_stringify e query) = None"
  shows "result_of (findByQuery_body s e query) = Inr (query_result s query)"
  using assms
  by (simp add: findByQuery_body_def Let_def result_of_def query_result_def split: option.splits)

lemma findByQuery_body_hit:
  assumes "map_of (cache s) (''query:'' @ JSON_stringify e query) = Some cached"
  shows "findByQuery_body s e query = (Inr cached, s, [])"
  using assms by (simp add: findByQuery_body_def Let_def)

lemma findByQuery_body_empty:
  assumes "map_of (cache s) (''query:'' @ JSON_stringify e []) = None"
  shows "findByQuery_body s e [] = (Inr [], s, [])"
  using assms by (simp add: findByQuery_body_def Let_def query_by_index_def)

text \<open>
  C3, as the code has it. The driving-set algorithm is what \<open>findByQuery\<close> runs when the
  cache has no entry for the query. For the empty predicate map it returns the empty
  sequence, in every state. In a state with a complete index, as every reachable state
  is, for a predicate map with at least one key and no \<open>undefined\<close> value, the records
  that the algorithm returns are the records that the plain filter over all stored
  records returns; and so are the records left of the id set of any predicate field
  that has one, so the choice of the driving field does not show.
\<close>

theorem heuristic_equals_naive_filter:
  "query_result s [] = []
   \<and> (map_of (cache s) (''query:'' @ JSON_stringify e query) = None \<longrightarrow>
        result_of (findByQuery_body s e query) = Inr (query_result s query))
   \<and> (store_inv s \<and> query \<noteq> [] \<and> defined_query query \<longrightarrow>
        set (query_result s query) = set (naive_query s query)
        \<and> (\<forall>key \<in> set (map fst query). \<forall>ids.
              idx_lookup (indexes s) key (obj_get query key) = Some ids
              \<longrightarrow> set (filter_candidates s query ids) = set (naive_query s query)))"
  by (simp add: query_result_empty findByQuery_body_miss store_inv_def query_result_selected
      naive_query_selected filter_candidates_selected)

theorem heuristic_equals_naive_filter_witness:
  "reachable after_second_create \<and> store_inv after_second_create
   \<and> [(''age'', JNum 25), (''name'', JStr ''B'')] \<noteq> []
   \<and> defined_query [(''age'', JNum 25), (''name'', JStr ''B'')]
   \<and> query_result after_second_create [(''age'', JNum 25), (''name'', JStr ''B'')]
       = [[(''name'', JStr ''B''), (''age'', JNum 25), (''id'', JStr ''u-2'')]]
   \<and> set (query_result after_second_create [(''age'', JNum 25), (''name'', JStr ''B'')])
       = set (naive_query after_second_create [(''age'', JNum 25), (''name'', JStr ''B'')])
   \<and> query_result after_second_create [] = []
   \<and> result_of (findByQuery_body after_second_create sample_env
                   [(''age'', JNum 25), (''name'', JStr ''B'')])
       = Inr [[(''name'', JStr ''B''), (''age'', JNum 25), (''id'', JStr ''u-2'')]]"
proof -
  let ?q = "[(''age'', JNum 25), (''name'', JStr ''B'')]"
  have q: "?q \<noteq> [] \<and> defined_query ?q"
    by (simp add: defined_query_def obj_get_def)
  have r: "query_result after_second_create ?q
       = [[(''name'', JStr ''B''), (''age'', JNum 25), (''id'', JStr ''u-2'')]]"
    by (simp add: query_result_def after_second_create_eq query_evals)
  have m: "map_of (cache after_second_create) (''query:'' @ JSON_stringify sample_env ?q) = None"
    by (simp add: after_second_create_eq sample_env_def)
  from heuristic_equals_naive_filter [of after_second_create sample_env ?q] q r m
    store_inv_after_second_create reachable_after_second_create
  show ?thesis by simp
qed

text \<open>
  C3 as stated fails for the empty predicate map, where the algorithm returns nothing
  and the filter keeps every record, and for a predicate whose value is \<open>undefined\<close>,
  which no index entry answers while every record without that field passes the filter.
\<close>

theorem heuristic_counterexample:
  "query_result after_first_create [] = []
   \<and> naive_query after_first_create []
       = [[(''name'', JStr ''A''), (''age'', JNum 25), (''id'', JStr ''u-1'')]]
   \<and> query_result after_first_create [(''city'', JUndefined)] = []
   \<and> naive_query after_first_create [(''city'', JUndefined)]
       = [[(''name'', JStr ''A''), (''age'', JNum 25), (''id'', JStr ''u-1'')]]"
  by (simp add: query_result_def naive_query_def after_first_create_eq query_evals)

text \<open>
  C2, as the code has it. Once \<open>init\<close> has succeeded, what \<open>findByQuery\<close> returns
  depends on the cache. When the cache has no entry for the query: in a state with a
  complete index, for a predicate map with at least one key and no \<open>undefined\<close> value it
  returns exactly the stored records that are strictly equal to the predicate at each
  of its fields; for the empty predicate map it returns \<open>[]\<close> and changes nothing. When
  the cache has an entry for the query, it returns that entry as it is and changes
  nothing, whatever the store holds.
\<close>

theorem findByQuery_by_cache:
  "(result_of (init s e) = Inr () \<and> store_inv s
      \<and> map_of (cache s) (''query:'' @ JSON_stringify e query) = None
      \<and> query \<noteq> [] \<and> defined_query query \<longrightarrow>
        (\<exists>results. result_of (findByQuery s e query) = Inr results
                   \<and> set results = selected (state_of (init s e)) query))
   \<and> (result_of (init s e) = Inr ()
      \<and> map_of (cache s) (''query:'' @ JSON_stringify e []) = None \<longrightarrow>
        result_of (findByQuery s e []) = Inr []
        \<and> state_of (findByQuery s e []) = state_of (init s e))
   \<and> (result_of (init s e) = Inr ()
      \<and> map_of (cache s) (''query:'' @ JSON_stringify e query) = Some cached \<longrightarrow>
        result_of (findByQuery s e query) = Inr cached
        \<and> state_of (findByQuery s e query) = state_of (init s e))"
proof -
  let ?s1 = "state_of (init s e)"
  have miss: "\<exists>results. result_of (findByQuery s e query) = Inr results
                   \<and> set results = selected ?s1 query"
    if i: "result_of (init s e) = Inr ()" and inv: "store_inv s"
      and m: "map_of (cache s) (''query:'' @ JSON_stringify e query) = None"
      and q: "query \<noteq> []" "defined_query query"
  proof -
    have m1: "map_of (cache ?s1) (''query:'' @ JSON_stringify e query) = None"
      using m by (simp add: cache_init)
    have c: "index_complete ?s1"
      using store_inv_init [OF inv, of e] by (simp add: store_inv_def)
    have "result_of (findByQuery s e query) = Inr (query_result ?s1 query)"
      unfolding findByQuery_def after_init_success [OF i] by (rule findByQuery_body_miss [OF m1])
    with query_result_selected [OF c q] show ?thesis by simp
  qed
  have empty: "result_of (findByQuery s e []) = Inr []
        \<and> state_of (findByQuery s e []) = ?s1"
    if i: "result_of (init s e) = Inr ()"
      and m: "map_of (cache s) (''query:'' @ JSON_stringify e []) = None"
  proof -
    have m1: "map_of (cache ?s1) (''query:'' @ JSON_stringify e []) = None"
      using m by (simp add: cache_init)
    show ?thesis
      unfolding findByQuery_def after_init_success [OF i] findByQuery_body_empty [OF m1]
      by (simp add: result_of_def state_of_def)
  qed
  have hit: "result_of (findByQuery s e query) = Inr cached
        \<and> state_of (findByQuery s e query) = ?s1"
    if i: "result_of (init s e) = Inr ()"
      and h: "map_of (cache s) (''query:'' @ JSON_stringify e query) = Some cached"
  proof -
    have h1: "map_of (cache ?s1) (''query:'' @ JSON_stringify e query) = Some cached"
      using h by (simp add: cache_init)
    show ?thesis
      unfolding findByQuery_def after_init_success [OF i] findByQuery_body_hit [OF h1]
      by (simp add: result_of_def state_of_def)
  qed
  from miss empty hit show ?thesis by blast
qed

theorem findByQuery_by_cache_witness:
  "reachable after_first_create
   \<and> result_of (init after_first_create sample_env) = Inr () \<and> store_inv after_first_create
   \<and> map_of (cache after_first_create) (''query:'' @ JSON_stringify sample_env query_age) = None
   \<and> query_age \<noteq> [] \<and> defined_query query_age
   \<and> result_of (findByQuery after_first_create sample_env query_age)
       = Inr [[(''name'', JStr ''A''), (''age'', JNum 25), (''id'', JStr ''u-1'')]]
   \<and> selected after_first_create query_age
       = {[(''name'', JStr ''A''), (''age'', JNum 25), (''id'', JStr ''u-1'')]}
   \<and> findByQuery after_first_create sample_env [] = (Inr [], after_first_create, [])
   \<and> map_of (cache after_second_create) (''query:'' @ JSON_stringify sample_env query_age)
       = Some [[(''name'', JStr ''A''), (''age'', JNum 25), (''id'', JStr ''u-1'')]]
   \<and> state_of (findByQuery after_second_create sample_env query_age) = after_second_create"
proof -
  let ?A = "[(''name'', JStr ''A''), (''age'', JNum 25), (''id'', JStr ''u-1'')]"
  have i: "isInitialized after_first_create" by (simp add: after_first_create_eq)
  have r0: "result_of (init after_first_create sample_env) = Inr ()"
    and s0: "state_of (init after_first_create sample_env) = after_first_create"
    by (simp_all add: init_initialized [OF i] result_of_def state_of_def)
  have i2: "isInitialized after_second_create" by (simp add: after_second_create_eq)
  have r2: "result_of (init after_second_create sample_env) = Inr ()"
    and s2: "state_of (init after_second_create sample_env) = after_second_create"
    by (simp_all add: init_initialized [OF i2] result_of_def state_of_def)
  have m: "map_of (cache after_first_create) (''query:'' @ JSON_stringify sample_env query_age) = None"
    by (simp add: after_first_create_eq)
  have m0: "map_of (cache after_first_create) (''query:'' @ JSON_stringify sample_env []) = None"
    by (simp add: after_first_create_eq)
  have h: "map_of (cache after_second_create) (''query:'' @ JSON_stringify sample_env query_age)
       = Some [?A]"
    by (simp add: after_second_create_eq sample_env_def query_age_def)
  have q: "query_age \<noteq> [] \<and> defined_query query_age"
    by (simp add: query_age_def defined_query_def obj_get_def)
  have r: "result_of (findByQuery after_first_create sample_env query_age) = Inr [?A]"
    by (simp add: first_query_eq result_of_def)
  from findByQuery_by_cache [of after_first_create sample_env query_age]
    r0 store_inv_after_first_create m q r
  have a: "selected after_first_create query_age = {?A}"
    unfolding s0 by auto
  from findByQuery_by_cache [of after_first_create sample_env query_age] r0 m0
  have "result_of (findByQuery after_first_create sample_env []) = Inr []
      \<and> state_of (findByQuery after_first_create sample_env []) = after_first_create"
    unfolding s0 by blast
  moreover have "calls_of (findByQuery after_first_create sample_env []) = []"
    unfolding findByQuery_initialized [OF i] findByQuery_body_empty [OF m0]
    by (simp add: calls_of_def)
  ultimately have b: "findByQuery after_first_create sample_env [] = (Inr [], after_first_create, [])"
    by (cases "findByQuery after_first_create sample_env []")
       (simp add: result_of_def state_of_def calls_of_def)
  from findByQuery_by_cache [of after_second_create sample_env query_age "[?A]"] r2 h
  have c: "state_of (findByQuery after_second_create sample_env query_age) = after_second_create"
    unfolding s2 by blast
  from r0 store_inv_after_first_create reachable_after_first_create m q r a b h c
  show ?thesis by blast
qed

text \<open>
  C2 as stated fails when the cache has an entry: after a query, a second record of the
  same age is not in the answer to the same query. It also fails for a predicate whose
  value is \<open>undefined\<close>.
\<close>

theorem findByQuery_counterexample:
  "result_of (findByQuery after_second_create sample_env query_age)
     = Inr [[(''name'', JStr ''A''), (''age'', JNum 25), (''id'', JStr ''u-1'')]]
   \<and> selected after_second_create query_age
     = {[(''name'', JStr ''A''), (''age'', JNum 25), (''id'', JStr ''u-1'')],
        [(''name'', JStr ''B''), (''age'', JNum 25), (''id'', JStr ''u-2'')]}
   \<and> result_of (findByQuery after_first_create sample_env [(''city'', JUndefined)]) = Inr []
   \<and> selected after_first_create [(''city'', JUndefined)]
     = {[(''name'', JStr ''A''), (''age'', JNum 25), (''id'', JStr ''u-1'')]}"
proof -
  have i2: "isInitialized after_second_create" by (simp add: after_second_create_eq)
  have i1: "isInitialized after_first_create" by (simp add: after_first_create_eq)
  have a: "result_of (findByQuery after_second_create sample_env query_age)
     = Inr [[(''name'', JStr ''A''), (''age'', JNum 25), (''id'', JStr ''u-1'')]]"
    unfolding findByQuery_initialized [OF i2] findByQuery_body_def Let_def
    by (simp add: after_second_create_eq sample_env_def query_age_def result_of_def)
  have d2: "distinct (map fst (data after_second_create))"
    using store_inv_after_second_create by (simp add: store_inv_def)
  have b: "selected after_second_create query_age
     = {[(''name'', JStr ''A''), (''age'', JNum 25), (''id'', JStr ''u-1'')],
        [(''name'', JStr ''B''), (''age'', JNum 25), (''id'', JStr ''u-2'')]}"
    unfolding naive_query_selected [OF d2, symmetric]
    by (simp add: naive_query_def after_second_create_eq query_age_def matches_def strict_eq_def
        obj_get_def)
  have q: "query_by_index after_first_create [(''city'', JUndefined)] = None"
    by (simp add: after_first_create_eq query_evals)
  have c: "result_of (findByQuery after_first_create sample_env [(''city'', JUndefined)]) = Inr []"
    unfolding findByQuery_initialized [OF i1] findByQuery_body_def Let_def q
    by (simp add: after_first_create_eq sample_env_def result_of_def)
  have d1: "distinct (map fst (data after_first_create))"
    using store_inv_after_first_create by (simp add: store_inv_def)
  have d: "selected after_first_create [(''city'', JUndefined)]
     = {[(''name'', JStr ''A''), (''age'', JNum 25), (''id'', JStr ''u-1'')]}"
    unfolding naive_query_selected [OF d1, symmetric]
    by (simp add: naive_query_def after_first_create_eq matches_def strict_eq_def obj_get_def)
  from a b c d show ?thesis by blast
qed

section \<open>Index consistency\<close>

lemma index_sound_put:
  assumes "index_sound s"
    and d: "map_of dat = (map_of (data s))(rid \<mapsto> new)"
    and i: "\<And>k v. idx_ids idx k v
              = (idx_ids (indexes s) k v - R k v) \<union> (if (k, v) \<in> set new then {rid} else {})"
    and w: "distinct (map fst new)"
    and r: "\<And>k v. rid \<in> idx_ids (indexes s) k v \<Longrightarrow> rid \<in> R k v"
  shows "index_sound (s\<lparr>data := dat, dirty := True, indexes := idx\<rparr>)"
  unfolding index_sound_def
proof (intro allI impI)
  fix k v rid'
  assume "rid' \<in> idx_ids (indexes (s\<lparr>data := dat, dirty := True, indexes := idx\<rparr>)) k v"
  then have m: "rid' \<in> (idx_ids (indexes s) k v - R k v) \<union> (if (k, v) \<in> set new then {rid} else {})"
    by (simp add: i)
  show "\<exists>ob. map_of (data (s\<lparr>data := dat, dirty := True, indexes := idx\<rparr>)) rid' = Some ob
             \<and> map_of ob k = Some v"
  proof (cases "rid' = rid")
    case True
    with m r [of k v] have "(k, v) \<in> set new" by (auto split: if_splits)
    with w have "map_of new k = Some v" by simp
    with True d show ?thesis by simp
  next
    case False
    with m have "rid' \<in> idx_ids (indexes s) k v" by (auto split: if_splits)
    with assms(1) obtain ob where "map_of (data s) rid' = Some ob" and "map_of ob k = Some v"
      unfolding index_sound_def by blast
    with False d show ?thesis by simp
  qed
qed

lemma wf_db_put:
  assumes "wf_db s" and "wf_obj new"
  shows "wf_db (s\<lparr>data := AList.update rid new (data s), dirty := True, indexes := idx\<rparr>)"
  using assms set_update_subset [of rid new "data s"]
  by (auto simp: wf_db_def AList.distinct_update)

lemma wf_obj_spread: "wf_obj a \<Longrightarrow> wf_obj (spread a b)"
  unfolding spread_def wf_obj_def
  by (induction b arbitrary: a) (auto simp: AList.distinct_update)

lemma wf_db_stored: "wf_db s \<Longrightarrow> map_of (data s) rid = Some ob \<Longrightarrow> wf_obj ob"
  by (auto simp: wf_db_def dest: map_of_SomeD)

lemma consistent_update_body:
  assumes "wf_db s" and "index_consistent s"
  shows "wf_db (state_of (update_body s rid updates))
         \<and> index_consistent (state_of (update_body s rid updates))"
proof (cases "map_of (data s) rid")
  case None
  with assms show ?thesis by (simp add: update_body_def state_of_def)
next
  case (Some existingObj)
  let ?new = "spread existingObj updates"
  let ?s' = "s\<lparr>data := AList.update rid ?new (data s), dirty := True,
              indexes := fold (index_add rid) ?new
                           (fold (index_remove rid) existingObj (indexes s))\<rparr>"
  have st: "state_of (update_body s rid updates) = ?s'"
    using Some by (simp add: update_body_def state_of_def Let_def)
  have wn: "wf_obj ?new"
    using wf_db_stored [OF assms(1) Some] by (rule wf_obj_spread)
  have wf: "wf_db ?s'" using assms(1) wn by (rule wf_db_put)
  have inv: "store_inv s" using assms by (simp add: store_inv_def wf_db_def index_consistent_def)
  have c: "index_complete ?s'"
    using store_inv_update_body [OF inv, of rid updates] st by (simp add: store_inv_def)
  have old: "rid \<in> (if (k, v) \<in> set existingObj then {rid} else {})"
    if "rid \<in> idx_ids (indexes s) k v" for k v
  proof -
    from that assms(2) Some have "map_of existingObj k = Some v"
      unfolding index_consistent_def index_sound_def by fastforce
    then show ?thesis by (auto dest: map_of_SomeD)
  qed
  have sd: "index_sound ?s'"
    using assms(2) wn old
    by (intro index_sound_put
          [where R = "\<lambda>k v. if (k, v) \<in> set existingObj then {rid} else {}"
             and rid = rid and new = ?new])
       (simp_all add: index_consistent_def wf_obj_def AList.update_conv'
          idx_ids_fold_add idx_ids_fold_remove)
  from wf c sd show ?thesis unfolding st by (simp add: index_consistent_def)
qed

lemma consistent_delete_body:
  assumes "wf_db s" and "index_consistent s"
  shows "wf_db (state_of (delete_body s rid)) \<and> index_consistent (state_of (delete_body s rid))"
proof (cases "map_of (data s) rid")
  case None
  with assms show ?thesis by (simp add: delete_body_def state_of_def)
next
  case (Some ob)
  let ?s' = "s\<lparr>indexes := fold (index_remove rid) ob (indexes s),
              data := AList.delete rid (data s), dirty := True\<rparr>"
  have st: "state_of (delete_body s rid) = ?s'"
    using Some by (simp add: delete_body_def state_of_def)
  have "set (AList.delete rid (data s)) \<subseteq> set (data s)"
    by (auto simp: AList.delete_eq)
  with assms(1) have wf: "wf_db ?s'"
    by (auto simp: wf_db_def AList.distinct_delete)
  have inv: "store_inv s" using assms by (simp add: store_inv_def wf_db_def index_consistent_def)
  have c: "index_complete ?s'"
    using store_inv_delete_body [OF inv, of rid] st by (simp add: store_inv_def)
  have sd: "index_sound ?s'"
    unfolding index_sound_def
  proof (intro allI impI)
    fix k v rid'
    assume "rid' \<in> idx_ids (indexes ?s') k v"
    then have m: "rid' \<in> idx_ids (indexes s) k v"
      and n: "(k, v) \<in> set ob \<Longrightarrow> rid' \<noteq> rid"
      by (auto simp: idx_ids_fold_remove split: if_splits)
    from m assms(2) obtain ob' where o: "map_of (data s) rid' = Some ob'" "map_of ob' k = Some v"
      unfolding index_consistent_def index_sound_def by blast
    have "rid' \<noteq> rid"
    proof
      assume "rid' = rid"
      with o Some have "(k, v) \<in> set ob" by (auto dest: map_of_SomeD)
      with n \<open>rid' = rid\<close> show False by simp
    qed
    with o show "\<exists>ob. map_of (data ?s') rid' = Some ob \<and> map_of ob k = Some v"
      by (simp add: AList.delete_conv')
  qed
  from wf c sd show ?thesis unfolding st by (simp add: index_consistent_def)
qed

lemma consistent_create_store_fresh:
  assumes "wf_db s" and "index_consistent s" and "wf_obj ob"
    and fresh: "map_of (data s)
        (if truthy (obj_get ob ''id'') then obj_get ob ''id'' else JStr (uuidv4 e)) = None"
  shows "wf_db (snd (create_store s e ob)) \<and> index_consistent (snd (create_store s e ob))"
proof -
  define rid where "rid = (if truthy (obj_get ob ''id'') then obj_get ob ''id'' else JStr (uuidv4 e))"
  define ob1 where "ob1 = AList.update ''id'' rid ob"
  let ?s' = "s\<lparr>data := AList.update rid ob1 (data s), dirty := True,
           indexes := fold (index_add rid) ob1 (indexes s)\<rparr>"
  have eq: "snd (create_store s e ob) = ?s'"
    by (simp add: create_store_def Let_def rid_def ob1_def)
  have w1: "wf_obj ob1" using assms(3) by (simp add: ob1_def wf_obj_def AList.distinct_update)
  have wf: "wf_db ?s'" using assms(1) w1 by (rule wf_db_put)
  have inv: "store_inv s" using assms(1,2) by (simp add: store_inv_def wf_db_def index_consistent_def)
  have c: "index_complete ?s'"
    using store_inv_create_store [OF inv, of e ob] eq by (simp add: store_inv_def)
  have none: "rid \<notin> idx_ids (indexes s) k v" for k v
    using assms(2) fresh unfolding index_consistent_def index_sound_def rid_def by fastforce
  have sd: "index_sound ?s'"
    using assms(2) w1 none
    by (intro index_sound_put [where R = "\<lambda>k v. {}" and rid = rid and new = ob1])
       (simp_all add: index_consistent_def wf_obj_def AList.update_conv' idx_ids_fold_add)
  from wf c sd show ?thesis unfolding eq by (simp add: index_consistent_def)
qed

text \<open>
  C1 at the input where the code departs from it: \<open>create\<close> with an id that is already
  stored. The store is consistent after the first \<open>create\<close>; the second replaces the
  record and leaves its id in the id set of the value the record no longer has, and
  \<open>findByKey\<close> for the old value then returns the new record.
\<close>

theorem create_over_existing_id_leaves_stale_entry:
  "index_consistent created_once
    \<and> created_twice = state_of (create created_once sample_env [(''id'', JStr ''a''), (''name'', JStr ''Y'')])
   \<and> data created_twice = [(JStr ''a'', [(''id'', JStr ''a''), (''name'', JStr ''Y'')])]
   \<and> idx_lookup (indexes created_twice) ''name'' (JStr ''X'') = Some [JStr ''a'']
   \<and> result_of (findByKey created_twice sample_env ''name'' (JStr ''X''))
       = Inr [[(''id'', JStr ''a''), (''name'', JStr ''Y'')]]
   \<and> \<not> index_sound created_twice
   \<and> \<not> index_consistent created_twice"
proof -
  have e: "wf_db empty_db \<and> index_consistent empty_db"
    by (simp add: wf_db_def index_consistent_def index_complete_def index_sound_def idx_ids_def
        idx_lookup_def empty_db_def)
  have "map_of (data empty_db)
        (if truthy (obj_get [(''id'', JStr ''a''), (''name'', JStr ''X'')] ''id'')
         then obj_get [(''id'', JStr ''a''), (''name'', JStr ''X'')] ''id''
         else JStr (uuidv4 sample_env)) = None"
    by (simp add: empty_db_def)
  with e have "index_consistent (snd (create_store empty_db sample_env
      [(''id'', JStr ''a''), (''name'', JStr ''X'')]))"
    by (intro consistent_create_store_fresh [THEN conjunct2]) (simp_all add: wf_obj_def)
  moreover have "snd (create_store empty_db sample_env [(''id'', JStr ''a''), (''name'', JStr ''X'')])
      = created_once"
    by (simp add: created_once_eq store_evals empty_db_def sample_env_def)
  ultimately have c1: "index_consistent created_once" by simp
  have l: "idx_lookup (indexes created_twice) ''name'' (JStr ''X'') = Some [JStr ''a'']"
    by (simp add: created_twice_eq idx_lookup_def)
  have d: "data created_twice = [(JStr ''a'', [(''id'', JStr ''a''), (''name'', JStr ''Y'')])]"
    by (simp add: created_twice_eq)
  have "\<not> index_sound created_twice"
  proof
    assume "index_sound created_twice"
    moreover have "JStr ''a'' \<in> idx_ids (indexes created_twice) ''name'' (JStr ''X'')"
      by (simp add: idx_ids_def l)
    ultimately obtain ob where "map_of (data created_twice) (JStr ''a'') = Some ob"
      and "map_of ob ''name'' = Some (JStr ''X'')"
      unfolding index_sound_def by blast
    then show False by (auto simp: d)
  qed
  moreover have "result_of (findByKey created_twice sample_env ''name'' (JStr ''X''))
       = Inr [[(''id'', JStr ''a''), (''name'', JStr ''Y'')]]"
  proof -
    have i: "isInitialized created_twice" by (simp add: created_twice_eq)
    show ?thesis
      unfolding findByKey_def after_init_initialized [OF i] findByKey_body_def Let_def l
      by (simp add: created_twice_eq sample_env_def result_of_def List.map_filter_def)
  qed
  ultimately show ?thesis using c1 l d by (simp add: index_consistent_def created_twice_def)
qed

theorem create_over_existing_id_witness:
  "JStr ''a'' \<in> idx_ids (indexes created_twice) ''name'' (JStr ''X'')
   \<and> map_of (data created_twice) (JStr ''a'') = Some [(''id'', JStr ''a''), (''name'', JStr ''Y'')]
   \<and> obj_get [(''id'', JStr ''a''), (''name'', JStr ''Y'')] ''name'' \<noteq> JStr ''X''"
  using create_over_existing_id_leaves_stale_entry
  by (simp add: idx_ids_def obj_get_def)

end
